theory Spec2Isabelle
  imports Complex_Main "HOL-Library.Stream" "HOL-Library.AList"
begin

section \<open>Seismic damage assessment of a water network (main.ipynb)\<close>

text \<open>
  The notebook is a sequence of top-level cells. Each cell is embedded as a function from
  the values it reads to the values it leaves behind. Python floats are idealised as
  \<^typ>\<open>real\<close>, with two exceptions: a numpy division by zero leaves the reals and is
  modelled by \<open>npfloat\<close> below, and the products truncated by \<open>int(...)\<close> in the split
  of a damage count are rounded as IEEE doubles, since truncation is not continuous. The random sources are explicit streams
  of draws, threaded through the cells. A Python exception is a value \<open>Inl e\<close>.
\<close>

subsection \<open>Errors, random sources, dictionaries\<close>

datatype error = KeyError | IndexError | ValueError

text \<open>
  Python's global \<open>random\<close> generator: the stream of the values \<open>random.random()\<close> will
  return, each in \<open>[0, 1)\<close>. \<open>random.uniform(a, b)\<close> is \<open>a + (b - a) * random()\<close>.
\<close>

type_synonym rng = "real stream"

definition random_uniform :: "real \<Rightarrow> real \<Rightarrow> rng \<Rightarrow> real \<times> rng" where
  "random_uniform a b g = (a + (b - a) * shd g, stl g)"

text \<open>\<open>d.get(k, default)\<close> on a dictionary written as a literal (an association list).\<close>

definition dict_get :: "('k \<times> 'v) list \<Rightarrow> 'k \<Rightarrow> 'v \<Rightarrow> 'v" where
  "dict_get d k dflt = (case map_of d k of None \<Rightarrow> dflt | Some v \<Rightarrow> v)"

text \<open>\<open>series.get(k, default)\<close> on a pandas Series with unique labels.\<close>

definition series_get_default :: "('k \<rightharpoonup> real) \<Rightarrow> 'k \<Rightarrow> real \<Rightarrow> real" where
  "series_get_default s k dflt = (case s k of None \<Rightarrow> dflt | Some v \<Rightarrow> v)"

subsection \<open>The lognormal distribution function of scipy\<close>

text \<open>
  \<open>scipy.stats.lognorm.cdf(x, s=beta, scale=median)\<close> is not code of the notebook. Its
  value is \<open>0\<close> at and below the lower end of the support (\<open>x / scale \<le> 0\<close>), and
  \<open>\<Phi>(ln (x / scale) / s)\<close> above it, where \<open>\<Phi>\<close> is the standard normal distribution
  function, written here by its power series around \<open>0\<close>.
\<close>

definition norm_cdf :: "real \<Rightarrow> real" where
  "norm_cdf z =
     1 / 2 + (\<Sum>n. (- 1) ^ n * z ^ (2 * n + 1) / (fact n * 2 ^ n * real (2 * n + 1)))
             / sqrt (2 * pi)"

definition lognorm_cdf :: "real \<Rightarrow> real \<Rightarrow> real \<Rightarrow> real" where
  "lognorm_cdf x s scale =
     (if x / scale \<le> 0 then 0 else norm_cdf (ln (x / scale) / s))"

subsection \<open>Fragility curves and the damage-state sampler (cells 6 and 7)\<close>

definition tanks_damage_state_params :: "(string \<times> real \<times> real) list" where
  "tanks_damage_state_params =
     [(''Minor'', 0.18, 0.5), (''Moderate'', 0.55, 0.5),
      (''Extensive'', 1.15, 0.6), (''Complete'', 1.50, 0.6)]"

definition tank_operational_levels :: "(string \<times> real) list" where
  "tank_operational_levels =
     [(''None'', 1.0), (''Minor'', 0.9), (''Moderate'', 0.8),
      (''Extensive'', 0.6), (''Complete'', 0.0)]"

definition pump_damage_state_params :: "(string \<times> real \<times> real) list" where
  "pump_damage_state_params =
     [(''Minor'', 0.15, 0.75), (''Moderate'', 0.36, 0.65),
      (''Extensive'', 0.77, 0.65), (''Complete'', 1.5, 0.8)]"

definition pump_operational_levels :: "(string \<times> real) list" where
  "pump_operational_levels =
     [(''None'', 1.0), (''Minor'', 0.9), (''Moderate'', 0.8),
      (''Extensive'', 0.6), (''Complete'', 0.0)]"

text \<open>
  The first loop of the sampler: for each state of the table, in the table's order,
  \<open>probabilities[state] = exceedance_probability - previous_probability\<close>. The keys of
  the table are distinct, so the dictionary built is the list of the pairs in that order.
\<close>

fun probabilities_loop :: "(string \<times> real \<times> real) list \<Rightarrow> real \<Rightarrow> real \<Rightarrow> (string \<times> real) list" where
  "probabilities_loop [] pga previous_probability = []"
| "probabilities_loop ((state, median, beta) # params) pga previous_probability =
     (let exceedance_probability = 1 - lognorm_cdf pga beta median
      in (state, exceedance_probability - previous_probability)
         # probabilities_loop params pga exceedance_probability)"

text \<open>
  The second loop: accumulate, and stop at the first state whose cumulative probability
  reaches the random number; \<open>damage_state\<close> keeps its initial value if none does.
\<close>

fun cumulative_loop :: "(string \<times> real) list \<Rightarrow> real \<Rightarrow> real \<Rightarrow> string \<Rightarrow> string" where
  "cumulative_loop [] random_number cumulative_probability damage_state = damage_state"
| "cumulative_loop ((state, probability) # rest) random_number cumulative_probability damage_state =
     (if random_number \<le> cumulative_probability + probability then state
      else cumulative_loop rest random_number (cumulative_probability + probability) damage_state)"

text \<open>
  The functions have no \<open>raise\<close> and call nothing that raises on a number: they return
  \<open>Inr\<close> of the state and of the generator after one draw.
\<close>

definition determine_tank_damage_state :: "real \<Rightarrow> rng \<Rightarrow> error + (string \<times> rng)" where
  "determine_tank_damage_state pga g =
     (let probabilities = probabilities_loop tanks_damage_state_params pga 0;
          (random_number, g') = random_uniform 0 1 g
      in Inr (cumulative_loop probabilities random_number 0 ''None'', g'))"

definition determine_pump_damage_state :: "real \<Rightarrow> rng \<Rightarrow> error + (string \<times> rng)" where
  "determine_pump_damage_state pga g =
     (let probabilities = probabilities_loop pump_damage_state_params pga 0;
          (random_number, g') = random_uniform 0 1 g
      in Inr (cumulative_loop probabilities random_number 0 ''None'', g'))"

subsection \<open>The network model, as far as the notebook reads and writes it\<close>

text \<open>
  The WNTR object \<open>wn\<close>: its name lists, the attributes of tanks, pumps and pipes the
  cells touch, and the two structural operations of cell 8. Pipe names are the decimal
  numerals the notebook converts with \<open>int(pipe_name)\<close>, kept as integers; a pipe is
  (name, length in feet, diameter). \<open>wntr.morph.split_pipe\<close> and \<open>add_leak\<close> belong to
  WNTR: the record keeps which pipes were split and which leaks were added, the leak
  junction \<open>Leak_<pipe>\<close> standing under its pipe's name.
\<close>

record network =
  node_name_list :: "string list"
  tank_name_list :: "string list"
  junction_name_list :: "string list"
  pump_name_list :: "string list"
  init_level :: "string \<rightharpoonup> real"
  elevation :: "string \<rightharpoonup> real"
  base_speed :: "string \<rightharpoonup> real"
  pipes :: "(int \<times> real \<times> real) list"
  split_pipes :: "int list"
  leaks :: "(int \<times> real \<times> real \<times> real) list"

definition split_pipe :: "network \<Rightarrow> int \<Rightarrow> network" where
  "split_pipe wn pipe = wn\<lparr>split_pipes := split_pipes wn @ [pipe]\<rparr>"

definition add_leak :: "network \<Rightarrow> int \<Rightarrow> real \<Rightarrow> real \<Rightarrow> real \<Rightarrow> network" where
  "add_leak wn pipe area start_time end_time =
     wn\<lparr>leaks := leaks wn @ [(pipe, area, start_time, end_time)]\<rparr>"

definition leak_start_time :: real where
  "leak_start_time = 0 * 3600"

definition leak_end_time :: real where
  "leak_end_time = 24 * 3600"

subsection \<open>Tanks (cell 6)\<close>

text \<open>
  \<open>original_tank_levels = {tank_name: wn.get_node(tank_name).init_level for ...}\<close>;
  \<open>get_node\<close> raises \<open>KeyError\<close> for a name the network does not hold.
\<close>

fun original_tank_levels_loop :: "network \<Rightarrow> string list \<Rightarrow> (string \<rightharpoonup> real) \<Rightarrow> error + (string \<rightharpoonup> real)" where
  "original_tank_levels_loop wn [] levels = Inr levels"
| "original_tank_levels_loop wn (tank_name # rest) levels =
     (case init_level wn tank_name of
        None \<Rightarrow> Inl KeyError
      | Some l \<Rightarrow> original_tank_levels_loop wn rest (levels(tank_name \<mapsto> l)))"

definition original_tank_levels :: "network \<Rightarrow> error + (string \<rightharpoonup> real)" where
  "original_tank_levels wn = original_tank_levels_loop wn (tank_name_list wn) Map.empty"

text \<open>The body of the loop over the tanks, and the loop.\<close>

definition tank_step :: "(string \<rightharpoonup> real) \<Rightarrow> string \<Rightarrow> network \<times> rng \<Rightarrow> error + (network \<times> rng)" where
  "tank_step tanks_pga tank_name s =
     (case s of (wn, g) \<Rightarrow>
      (case init_level wn tank_name of
         None \<Rightarrow> Inl KeyError
       | Some level \<Rightarrow>
           (let pga_value = series_get_default tanks_pga tank_name 0
            in case determine_tank_damage_state pga_value g of
                 Inl e \<Rightarrow> Inl e
               | Inr (damage_state, g') \<Rightarrow>
                   (let operational_level = dict_get tank_operational_levels damage_state 1.0
                    in Inr (wn\<lparr>init_level := (init_level wn)(tank_name \<mapsto> level * operational_level)\<rparr>,
                            g')))))"

fun tank_loop :: "(string \<rightharpoonup> real) \<Rightarrow> string list \<Rightarrow> network \<times> rng \<Rightarrow> error + (network \<times> rng)" where
  "tank_loop tanks_pga [] s = Inr s"
| "tank_loop tanks_pga (tank_name # rest) s =
     (case tank_step tanks_pga tank_name s of
        Inl e \<Rightarrow> Inl e
      | Inr s' \<Rightarrow> tank_loop tanks_pga rest s')"

definition tank_cell :: "(string \<rightharpoonup> real) \<Rightarrow> network \<Rightarrow> rng \<Rightarrow> error + (network \<times> rng)" where
  "tank_cell tanks_pga wn g = tank_loop tanks_pga (tank_name_list wn) (wn, g)"

subsection \<open>Pumps (cell 7)\<close>

text \<open>
  The state of the loop is the network, \<open>pump_performance\<close> and the generator.
  \<open>pump = wn.get_link(pump_name)\<close> reads the pump; the assignment to
  \<open>pump.base_speed\<close> is commented out in the source, so the step writes no attribute.
\<close>

definition pump_step :: "(string \<rightharpoonup> real) \<Rightarrow> string \<Rightarrow> network \<times> (string \<rightharpoonup> real) \<times> rng
    \<Rightarrow> error + (network \<times> (string \<rightharpoonup> real) \<times> rng)" where
  "pump_step pumps_pga pump_name s =
     (case s of (wn, pump_performance, g) \<Rightarrow>
      (case base_speed wn pump_name of
         None \<Rightarrow> Inl KeyError
       | Some speed \<Rightarrow>
           (let pga_value = series_get_default pumps_pga pump_name 0
            in case determine_pump_damage_state pga_value g of
                 Inl e \<Rightarrow> Inl e
               | Inr (damage_state, g') \<Rightarrow>
                   (let operational_level = dict_get pump_operational_levels damage_state 1.0
                    in Inr (wn, pump_performance(pump_name \<mapsto> operational_level), g')))))"

fun pump_loop :: "(string \<rightharpoonup> real) \<Rightarrow> string list \<Rightarrow> network \<times> (string \<rightharpoonup> real) \<times> rng
    \<Rightarrow> error + (network \<times> (string \<rightharpoonup> real) \<times> rng)" where
  "pump_loop pumps_pga [] s = Inr s"
| "pump_loop pumps_pga (pump_name # rest) s =
     (case pump_step pumps_pga pump_name s of
        Inl e \<Rightarrow> Inl e
      | Inr s' \<Rightarrow> pump_loop pumps_pga rest s')"

definition pump_cell :: "(string \<rightharpoonup> real) \<Rightarrow> network \<Rightarrow> rng
    \<Rightarrow> error + (network \<times> (string \<rightharpoonup> real) \<times> rng)" where
  "pump_cell pumps_pga wn g = pump_loop pumps_pga (pump_name_list wn) (wn, Map.empty, g)"

subsection \<open>Pipelines (cell 8)\<close>

text \<open>
  numpy's global generator, used by \<open>poisson.rvs\<close> and \<open>np.random.uniform\<close>: the counts
  and the uniform values it will return, in the order of the calls. The law of a draw is
  not modelled: a statement about every generator holds for every outcome of the draws.
\<close>

record np_random =
  poisson_draws :: "nat stream"
  uniform_draws :: "real stream"

definition poisson_rvs :: "real \<Rightarrow> np_random \<Rightarrow> int \<times> np_random" where
  "poisson_rvs mu g = (int (shd (poisson_draws g)), g\<lparr>poisson_draws := stl (poisson_draws g)\<rparr>)"

definition np_random_uniform :: "np_random \<Rightarrow> real \<times> np_random" where
  "np_random_uniform g = (shd (uniform_draws g), g\<lparr>uniform_draws := stl (uniform_draws g)\<rparr>)"

text \<open>
  \<open>RR\<close> is a pandas Series, here the list of its (label, value) items. \<open>RR[k]\<close> raises
  \<open>KeyError\<close> for a missing label; for a repeated one it is a Series, on which the \<open>if\<close>
  of the last loop raises \<open>ValueError\<close>. \<open>link_length.iloc[i]\<close> is positional, counts a
  negative \<open>i\<close> from the end and raises \<open>IndexError\<close> out of range.
\<close>

definition series_getitem :: "(int \<times> real) list \<Rightarrow> int \<Rightarrow> error + real" where
  "series_getitem s k =
     (case filter (\<lambda>item. fst item = k) s of
        [] \<Rightarrow> Inl KeyError
      | [item] \<Rightarrow> Inr (snd item)
      | _ \<Rightarrow> Inl ValueError)"

definition iloc :: "real list \<Rightarrow> int \<Rightarrow> error + real" where
  "iloc xs i =
     (if 0 \<le> i \<and> i < int (length xs) then Inr (xs ! nat i)
      else if i < 0 \<and> - int (length xs) \<le> i then Inr (xs ! nat (int (length xs) + i))
      else Inl IndexError)"

text \<open>Python's \<open>int(x)\<close> on a float truncates towards zero.\<close>

definition py_int :: "real \<Rightarrow> int" where
  "py_int x = (if 0 \<le> x then \<lfloor>x\<rfloor> else \<lceil>x\<rceil>)"

definition link_length :: "network \<Rightarrow> real list" where
  "link_length wn = map (\<lambda>(pipe_name, len, d). len * 0.3048) (pipes wn)"

text \<open>
  \<open>num_damages\<close>: one Poisson draw for each item of \<open>RR\<close>, stored under \<open>int(pipe)\<close>.
  A dictionary keeps a key at the place of its first insertion, as \<open>AList.update\<close> does.
\<close>

fun num_damages_loop :: "real list \<Rightarrow> (int \<times> real) list \<Rightarrow> (int \<times> int) list \<times> np_random
    \<Rightarrow> error + ((int \<times> int) list \<times> np_random)" where
  "num_damages_loop lens [] s = Inr s"
| "num_damages_loop lens ((pipe, repair_rate) # rest) s =
     (case s of (damages, g) \<Rightarrow>
      (case iloc lens pipe of
         Inl e \<Rightarrow> Inl e
       | Inr len \<Rightarrow>
           (case poisson_rvs (repair_rate * len) g of
              (damage, g') \<Rightarrow> num_damages_loop lens rest (AList.update pipe damage damages, g'))))"

text \<open>
  IEEE double arithmetic, as far as \<open>int(0.85 * damage)\<close> needs it. A double is a
  multiple of \<open>2 ^ (e - 52)\<close> where \<open>2 ^ e\<close> is the power of two at or below its
  magnitude (\<open>e\<close> at least \<open>- 1022\<close>); an operation returns the double nearest to the
  exact result, the one with an even last digit when two are equally near. Magnitudes
  beyond the largest double do not arise from 64-bit counts. The literals \<open>0.85\<close> and
  \<open>0.15\<close> are the doubles nearest to these decimals, and numpy converts the integer
  count to a double before it multiplies.
\<close>

definition round_half_even :: "real \<Rightarrow> int" where
  "round_half_even x =
     (if x - of_int \<lfloor>x\<rfloor> < 1 / 2 then \<lfloor>x\<rfloor>
      else if 1 / 2 < x - of_int \<lfloor>x\<rfloor> then \<lfloor>x\<rfloor> + 1
      else if even \<lfloor>x\<rfloor> then \<lfloor>x\<rfloor> else \<lfloor>x\<rfloor> + 1)"

definition double_round :: "real \<Rightarrow> real" where
  "double_round x =
     (if x = 0 then 0
      else (let e = max \<lfloor>log 2 \<bar>x\<bar>\<rfloor> (- 1022); q = 2 powr (of_int e - 52)
            in of_int (round_half_even (x / q)) * q))"

definition float_mul :: "real \<Rightarrow> real \<Rightarrow> real" where
  "float_mul a b = double_round (a * b)"

definition float_of_int :: "int \<Rightarrow> real" where
  "float_of_int n = double_round (of_int n)"

definition leaks_breaks_of :: "int \<Rightarrow> int \<times> int" where
  "leaks_breaks_of damage =
     (py_int (float_mul (double_round 0.85) (float_of_int damage)),
      py_int (float_mul (double_round 0.15) (float_of_int damage)))"

definition diameters_of :: "network \<Rightarrow> (int \<times> real) list" where
  "diameters_of wn = fold (\<lambda>(pipe_name, len, d). AList.update pipe_name d) (pipes wn) []"

definition area_of :: "real \<Rightarrow> real" where
  "area_of d = pi * (d / 2) ^ 2"

definition orifice_area_of :: "int \<Rightarrow> int \<Rightarrow> real \<Rightarrow> real" where
  "orifice_area_of n_leaks n_breaks area =
     min ((0.03 * real_of_int n_leaks + 0.2 * real_of_int n_breaks) * area) area"

text \<open>\<open>orifice_areas\<close>: \<open>areas[pipe]\<close> raises \<open>KeyError\<close> for a pipe without a diameter.\<close>

fun orifice_areas_loop :: "(int \<times> real) list \<Rightarrow> (int \<times> int \<times> int) list \<Rightarrow> error + (int \<times> real) list" where
  "orifice_areas_loop areas [] = Inr []"
| "orifice_areas_loop areas ((pipe, n_leaks, n_breaks) # rest) =
     (case map_of areas pipe of
        None \<Rightarrow> Inl KeyError
      | Some area \<Rightarrow>
          (case orifice_areas_loop areas rest of
             Inl e \<Rightarrow> Inl e
           | Inr others \<Rightarrow> Inr ((pipe, orifice_area_of n_leaks n_breaks area) # others)))"

text \<open>The last loop: the failure draw of each pipe, and the leak of a failed one.\<close>

definition failure_probability :: "real \<Rightarrow> real \<Rightarrow> real" where
  "failure_probability repair_rate len = 1 - exp (- repair_rate * len)"

fun leak_loop :: "(int \<times> real) list \<Rightarrow> real list \<Rightarrow> (int \<times> real) list \<Rightarrow> network \<times> np_random
    \<Rightarrow> error + (network \<times> np_random)" where
  "leak_loop rr lens [] s = Inr s"
| "leak_loop rr lens ((pipe, orifice_area) # rest) s =
     (case s of (wn, g) \<Rightarrow>
      (case series_getitem rr pipe of
         Inl e \<Rightarrow> Inl e
       | Inr repair_rate \<Rightarrow>
           (case iloc lens pipe of
              Inl e \<Rightarrow> Inl e
            | Inr len \<Rightarrow>
                (case np_random_uniform g of
                   (u, g') \<Rightarrow>
                     if u < failure_probability repair_rate len
                     then leak_loop rr lens rest
                            (add_leak (split_pipe wn pipe) pipe orifice_area
                               leak_start_time leak_end_time, g')
                     else leak_loop rr lens rest (wn, g')))))"

record pipe_damage =
  num_damages :: "(int \<times> int) list"
  leaks_breaks :: "(int \<times> int \<times> int) list"
  areas :: "(int \<times> real) list"
  orifice_areas :: "(int \<times> real) list"
  damaged_network :: network
  generator :: np_random

definition pipe_cell :: "(int \<times> real) list \<Rightarrow> network \<Rightarrow> np_random \<Rightarrow> error + pipe_damage" where
  "pipe_cell rr wn g =
     (case num_damages_loop (link_length wn) rr ([], g) of
        Inl e \<Rightarrow> Inl e
      | Inr (damages, g1) \<Rightarrow>
          (let lb = map (\<lambda>(pipe, damage). (pipe, leaks_breaks_of damage)) damages;
               ars = map (\<lambda>(pipe_name, d). (pipe_name, area_of d)) (diameters_of wn)
           in case orifice_areas_loop ars lb of
                Inl e \<Rightarrow> Inl e
              | Inr oas \<Rightarrow>
                  (case leak_loop rr (link_length wn) oas (wn, g1) of
                     Inl e \<Rightarrow> Inl e
                   | Inr (wn', g2) \<Rightarrow>
                       Inr \<lparr>num_damages = damages, leaks_breaks = lb, areas = ars,
                            orifice_areas = oas, damaged_network = wn', generator = g2\<rparr>)))"

subsection \<open>Serviceability (cell 9)\<close>

text \<open>
  What the cell reads of the solver's results and of \<open>wntr.metrics.expected_demand\<close>: the
  means over the horizon, by node; a node without a column raises \<open>KeyError\<close>.
\<close>

record results =
  head_mean :: "string \<rightharpoonup> real"
  demand_mean :: "string \<rightharpoonup> real"
  expected_demand_mean :: "string \<rightharpoonup> real"

text \<open>
  The means are \<open>numpy.float64\<close>, and numpy's division does not raise on a zero divisor:
  it warns and returns an infinity, or nan for \<open>0 / 0\<close>.
\<close>

datatype npfloat = Finite real | PosInf | NegInf | NaN

definition np_divide :: "real \<Rightarrow> real \<Rightarrow> npfloat" where
  "np_divide a b =
     (if b = 0 then (if a = 0 then NaN else if 0 < a then PosInf else NegInf)
      else Finite (a / b))"

fun node_loop :: "network \<Rightarrow> results \<Rightarrow> (string \<rightharpoonup> real) \<Rightarrow> string list \<Rightarrow> (string \<rightharpoonup> npfloat)
    \<Rightarrow> error + (string \<rightharpoonup> npfloat)" where
  "node_loop wn res original_levels [] serv = Inr serv"
| "node_loop wn res original_levels (node_name # rest) serv =
     (if node_name \<in> set (tank_name_list wn) then
        (case head_mean res node_name of
           None \<Rightarrow> Inl KeyError
         | Some head \<Rightarrow>
             (case elevation wn node_name of
                None \<Rightarrow> Inl KeyError
              | Some elev \<Rightarrow>
                  (case original_levels node_name of
                     None \<Rightarrow> Inl KeyError
                   | Some original \<Rightarrow>
                       (let new_tanks_level = head - elev
                        in node_loop wn res original_levels rest
                             (serv(node_name \<mapsto> np_divide new_tanks_level original))))))
      else if node_name \<in> set (junction_name_list wn) then
        (case demand_mean res node_name of
           None \<Rightarrow> Inl KeyError
         | Some satisfied_demand \<Rightarrow>
             (case expected_demand_mean res node_name of
                None \<Rightarrow> Inl KeyError
              | Some required_demand \<Rightarrow>
                  if required_demand = 0 then node_loop wn res original_levels rest serv
                  else node_loop wn res original_levels rest
                         (serv(node_name \<mapsto> np_divide satisfied_demand required_demand))))
      else node_loop wn res original_levels rest serv)"

fun pump_serviceability_loop :: "(string \<rightharpoonup> real) \<Rightarrow> string list \<Rightarrow> (string \<rightharpoonup> npfloat)
    \<Rightarrow> error + (string \<rightharpoonup> npfloat)" where
  "pump_serviceability_loop pump_performance [] serv = Inr serv"
| "pump_serviceability_loop pump_performance (pump_name # rest) serv =
     (case pump_performance pump_name of
        None \<Rightarrow> Inl KeyError
      | Some level \<Rightarrow>
          pump_serviceability_loop pump_performance rest (serv(pump_name \<mapsto> Finite level)))"

definition serviceability :: "network \<Rightarrow> results \<Rightarrow> (string \<rightharpoonup> real) \<Rightarrow> (string \<rightharpoonup> real)
    \<Rightarrow> error + (string \<rightharpoonup> npfloat)" where
  "serviceability wn res original_levels pump_performance =
     (case node_loop wn res original_levels (node_name_list wn) Map.empty of
        Inl e \<Rightarrow> Inl e
      | Inr serv \<Rightarrow> pump_serviceability_loop pump_performance (pump_name_list wn) serv)"

subsection \<open>Auxiliary definitions for the proofs and a small scenario for concrete runs\<close>

text \<open>The absolute value of the \<open>n\<close>-th term of the series of \<open>norm_cdf\<close>.\<close>

definition norm_term :: "real \<Rightarrow> nat \<Rightarrow> real" where
  "norm_term z n = z ^ (2 * n + 1) / (fact n * 2 ^ n * real (2 * n + 1))"

text \<open>
  Two tanks (the second one empty before the event), a junction, two pumps and two pipes;
  the attenuation model knows the first pump only.
\<close>

definition example_network :: network where
  "example_network =
     \<lparr>node_name_list = [''J1'', ''T1'', ''T2''],
      tank_name_list = [''T1'', ''T2''],
      junction_name_list = [''J1''],
      pump_name_list = [''P1'', ''P2''],
      init_level = [''T1'' \<mapsto> 10, ''T2'' \<mapsto> 0],
      elevation = [''T1'' \<mapsto> 5, ''T2'' \<mapsto> 5],
      base_speed = [''P1'' \<mapsto> 1, ''P2'' \<mapsto> 1],
      pipes = [(0, 1000, 0.3), (1, 500, 0.2)],
      split_pipes = [],
      leaks = []\<rparr>"

definition example_pumps_pga :: "string \<rightharpoonup> real" where
  "example_pumps_pga = [''P1'' \<mapsto> 0.36]"

definition example_results :: results where
  "example_results =
     \<lparr>head_mean = [''T1'' \<mapsto> 12, ''T2'' \<mapsto> 8],
      demand_mean = [''J1'' \<mapsto> 1 / 2],
      expected_demand_mean = [''J1'' \<mapsto> 1]\<rparr>"

text \<open>
  The repair rates of the two pipes and a state of numpy's generator: the Poisson draws
  will be 3, 2, 2, ... and the uniform draws 0, 0.9, 0.9, ...
\<close>

definition example_RR :: "(int \<times> real) list" where
  "example_RR = [(0, 0.001), (1, 0.001)]"

definition example_np_random :: np_random where
  "example_np_random = \<lparr>poisson_draws = 3 ## sconst 2, uniform_draws = 0 ## sconst 0.9\<rparr>"

text \<open>What cell 8 leaves behind on these inputs: the first pipe fails, the second does not.\<close>

definition example_pipe_damage :: pipe_damage where
  "example_pipe_damage =
     \<lparr>num_damages = [(0, 3), (1, 2)],
      leaks_breaks = [(0, 2, 0), (1, 1, 0)],
      areas = [(0, area_of 0.3), (1, area_of 0.2)],
      orifice_areas = [(0, orifice_area_of 2 0 (area_of 0.3)),
                       (1, orifice_area_of 1 0 (area_of 0.2))],
      damaged_network = example_network
        \<lparr>split_pipes := [0],
         leaks := [(0, orifice_area_of 2 0 (area_of 0.3), leak_start_time, leak_end_time)]\<rparr>,
      generator = \<lparr>poisson_draws = sconst 2, uniform_draws = sconst 0.9\<rparr>\<rparr>"

section \<open>Properties\<close>

subsection \<open>The sampler at intensities that are not positive\<close>

lemma lognorm_cdf_nonpos: "x \<le> 0 \<Longrightarrow> 0 < scale \<Longrightarrow> lognorm_cdf x s scale = 0"
  by (simp add: lognorm_cdf_def divide_le_0_iff)

lemma tank_sampler_nonpos:
  assumes "pga \<le> 0" and "shd g \<le> 1"
  shows "determine_tank_damage_state pga g = Inr (''Minor'', stl g)"
  using assms
  by (simp add: determine_tank_damage_state_def tanks_damage_state_params_def
      random_uniform_def lognorm_cdf_nonpos)

lemma pump_sampler_nonpos:
  assumes "pga \<le> 0" and "shd g \<le> 1"
  shows "determine_pump_damage_state pga g = Inr (''Minor'', stl g)"
  using assms
  by (simp add: determine_pump_damage_state_def pump_damage_state_params_def
      random_uniform_def lognorm_cdf_nonpos)

subsection \<open>The normal distribution function above one half\<close>

lemma norm_term_nonneg: "0 \<le> z \<Longrightarrow> 0 \<le> norm_term z n"
  by (simp add: norm_term_def)

lemma norm_term_Suc:
  "norm_term z (Suc n) = norm_term z n * (z\<^sup>2 * real (2 * n + 1) / (2 * real (n + 1) * real (2 * n + 3)))"
proof -
  have e: "2 * Suc n + 1 = (2 * n + 1) + 2" and e3: "2 * Suc n + 1 = 2 * n + 3" by simp_all
  have nz: "real (2 * n + 1) \<noteq> 0" by simp
  have "norm_term z (Suc n)
      = (z ^ (2 * n + 1) * z\<^sup>2) / ((fact n * 2 ^ n) * (2 * real (n + 1) * real (2 * n + 3)))"
    unfolding norm_term_def e3 [symmetric] unfolding e power_add by (simp add: e3 algebra_simps)
  also have "\<dots> = (z ^ (2 * n + 1) / (fact n * 2 ^ n * real (2 * n + 1)))
      * (z\<^sup>2 * real (2 * n + 1) / (2 * real (n + 1) * real (2 * n + 3)))"
    using nz by (simp only: times_divide_times_eq) (simp add: mult.assoc mult.left_commute)
  finally show ?thesis by (simp only: norm_term_def)
qed

lemma ratio_le_one:
  assumes "z\<^sup>2 \<le> 6"
  shows "z\<^sup>2 * real (2 * n + 1) / (2 * real (n + 1) * real (2 * n + 3)) \<le> 1"
proof -
  have "z\<^sup>2 * real (2 * n + 1) \<le> 6 * real (2 * n + 1)"
    by (intro mult_right_mono) (use assms in simp_all)
  also have "\<dots> \<le> 2 * real (n + 1) * real (2 * n + 3)"
  proof -
    have sq: "real n \<le> real n * real n"
      by (metis le_square of_nat_le_iff of_nat_mult)
    then show ?thesis by (simp add: algebra_simps)
  qed
  finally show ?thesis by simp
qed

lemma norm_term_mono:
  assumes "0 \<le> z" and "z\<^sup>2 \<le> 6"
  shows "norm_term z (Suc n) \<le> norm_term z n"
proof -
  have "norm_term z n * (z\<^sup>2 * real (2 * n + 1) / (2 * real (n + 1) * real (2 * n + 3)))
      \<le> norm_term z n * 1"
    by (rule mult_left_mono [OF ratio_le_one [OF assms(2)] norm_term_nonneg [OF assms(1)]])
  then show ?thesis by (simp add: norm_term_Suc)
qed

lemma pow_over_fact_tendsto_0: "(\<lambda>n. x ^ n / fact n) \<longlonglongrightarrow> (0::real)"
proof -
  have "summable (\<lambda>n. inverse (fact n) * x ^ n)"
    by (rule summable_exp)
  then have "(\<lambda>n. inverse (fact n) * x ^ n) \<longlonglongrightarrow> 0"
    by (rule summable_LIMSEQ_zero)
  then show ?thesis by (simp add: field_simps)
qed

lemma norm_term_le:
  assumes "0 \<le> z"
  shows "norm_term z n \<le> z * ((z\<^sup>2 / 2) ^ n / fact n)"
proof -
  have eq: "z * ((z\<^sup>2 / 2) ^ n / fact n) = z ^ (2 * n + 1) / (fact n * 2 ^ n)"
    by (simp add: power_divide power_mult [symmetric] mult.commute)
  have "norm_term z n \<le> z ^ (2 * n + 1) / (fact n * 2 ^ n)"
    unfolding norm_term_def using assms by (intro divide_left_mono) (simp_all)
  also have "\<dots> = z * ((z\<^sup>2 / 2) ^ n / fact n)"
    by (rule eq [symmetric])
  finally show ?thesis .
qed

lemma norm_term_tendsto_0:
  assumes "0 \<le> z"
  shows "norm_term z \<longlonglongrightarrow> 0"
proof (rule tendsto_sandwich)
  show "\<forall>\<^sub>F n in sequentially. 0 \<le> norm_term z n"
    using assms by (simp add: norm_term_nonneg)
  show "\<forall>\<^sub>F n in sequentially. norm_term z n \<le> z * ((z\<^sup>2 / 2) ^ n / fact n)"
    using norm_term_le [OF assms] by (intro always_eventually allI)
  show "(\<lambda>n. 0::real) \<longlonglongrightarrow> 0" by simp
  show "(\<lambda>n. z * ((z\<^sup>2 / 2) ^ n / fact n)) \<longlonglongrightarrow> 0"
    using tendsto_mult_left [OF pow_over_fact_tendsto_0 [of "z\<^sup>2 / 2"], of z] by simp
qed

lemma norm_cdf_gt_half:
  assumes "0 < z" and "z\<^sup>2 < 6"
  shows "1 / 2 < norm_cdf z"
proof -
  have z0: "0 \<le> z" and z6: "z\<^sup>2 \<le> 6" using assms by simp_all
  have "(\<Sum>i<2 * 1. (- 1) ^ i * norm_term z i) \<le> (\<Sum>i. (- 1) ^ i * norm_term z i)"
    by (rule summable_Leibniz'(2) [OF norm_term_tendsto_0 [OF z0] norm_term_nonneg [OF z0]
          norm_term_mono [OF z0 z6]])
  moreover have "(\<Sum>i<2 * 1. (- 1) ^ i * norm_term z i) = z * (1 - z\<^sup>2 / 6)"
    by (simp add: norm_term_def numeral_2_eq_2 power2_eq_square power3_eq_cube algebra_simps)
  moreover have "0 < z * (1 - z\<^sup>2 / 6)"
    using assms by simp
  ultimately have pos: "0 < (\<Sum>i. (- 1) ^ i * norm_term z i)" by linarith
  have "norm_cdf z = 1 / 2 + (\<Sum>i. (- 1) ^ i * norm_term z i) / sqrt (2 * pi)"
    by (simp add: norm_cdf_def norm_term_def)
  moreover have "0 < (\<Sum>i. (- 1) ^ i * norm_term z i) / sqrt (2 * pi)"
    using pos by simp
  ultimately show ?thesis by linarith
qed

lemma norm_cdf_0: "norm_cdf 0 = 1 / 2"
  by (simp add: norm_cdf_def)


lemma pump_sampler_Moderate:
  "determine_pump_damage_state 0.36 (sconst (1 / 2)) = Inr (''Moderate'', sconst (1 / 2))"
proof -
  let ?z = "ln (12 / 5) / (3 / 4) :: real"
  have pos: "0 < ?z" by simp
  have "ln (12 / 5 :: real) \<le> 12 / 5 - 1" by (rule ln_le_minus_one) simp
  then have le: "?z \<le> 28 / 15" by simp
  have "?z\<^sup>2 \<le> (28 / 15)\<^sup>2"
    using pos le by (intro power_mono) simp_all
  then have sq: "?z\<^sup>2 < 6" by (simp add: power2_eq_square)
  have half: "1 / 2 < norm_cdf ?z" by (rule norm_cdf_gt_half [OF pos sq])
  show ?thesis
    using half
    by (simp add: determine_pump_damage_state_def pump_damage_state_params_def
        random_uniform_def lognorm_cdf_def norm_cdf_0 Let_def)
qed

subsection \<open>The sampler at intensities that are not positive: the claims\<close>

text \<open>
  C1. The claim: for every intensity less than or equal to 0 the sampler returns "None"
  with probability about 1 over the uniform draw. What the code does: at every intensity
  \<open>pga \<le> 0\<close> each state's \<open>exceedance_probability\<close> is \<open>1 - 0 = 1\<close>, the first bucket
  (labelled "Minor") gets mass 1, and every draw \<open>random_number \<le> 1\<close> stops there. Both
  samplers return "Minor" for every draw, so "None" has probability 0.
\<close>

theorem nonpositive_intensity_samples_Minor:
  assumes "pga \<le> 0" and "shd g \<le> 1"
  shows "determine_tank_damage_state pga g = Inr (''Minor'', stl g)
       \<and> determine_pump_damage_state pga g = Inr (''Minor'', stl g)"
  using assms by (simp add: tank_sampler_nonpos pump_sampler_nonpos)

theorem nonpositive_intensity_samples_Minor_witness:
  "(0::real) \<le> 0 \<and> shd (sconst (1 / 2 :: real)) \<le> 1
   \<and> determine_tank_damage_state 0 (sconst (1 / 2)) = Inr (''Minor'', sconst (1 / 2))
   \<and> determine_pump_damage_state 0 (sconst (1 / 2)) = Inr (''Minor'', sconst (1 / 2))"
  using nonpositive_intensity_samples_Minor [of 0 "sconst (1 / 2)"] by simp

text \<open>
  C4. The claim: for every negative intensity the sampler fails with an InvalidIntensity
  error instead of returning a damage state. The samplers validate nothing: at the
  intensity \<open>- 1\<close> both return a state.
\<close>

theorem negative_intensity_returns_state:
  "determine_tank_damage_state (- 1) (sconst (1 / 2)) = Inr (''Minor'', sconst (1 / 2))
   \<and> determine_pump_damage_state (- 1) (sconst (1 / 2)) = Inr (''Minor'', sconst (1 / 2))"
  by (simp add: tank_sampler_nonpos pump_sampler_nonpos)

text \<open>
  C4, amended: for every negative intensity the sampler raises no error; it takes one
  uniform draw and returns a damage state.
\<close>

theorem negative_intensity_not_validated:
  assumes "pga < 0"
  shows "(\<exists>state. determine_tank_damage_state pga g = Inr (state, stl g))
       \<and> (\<exists>state. determine_pump_damage_state pga g = Inr (state, stl g))"
  by (simp add: determine_tank_damage_state_def determine_pump_damage_state_def
      random_uniform_def)

theorem negative_intensity_not_validated_witness:
  "(- 1 :: real) < 0
   \<and> (\<exists>state. determine_tank_damage_state (- 1) (sconst (1 / 4)) = Inr (state, stl (sconst (1 / 4))))
   \<and> (\<exists>state. determine_pump_damage_state (- 1) (sconst (1 / 4)) = Inr (state, stl (sconst (1 / 4))))"
  using negative_intensity_not_validated [of "- 1" "sconst (1 / 4)"] by simp

subsection \<open>The split of a damage count into leaks and breaks\<close>

lemma round_half_even_error: "\<bar>of_int (round_half_even x) - x\<bar> \<le> 1 / 2"
  unfolding round_half_even_def by (auto simp: abs_le_iff)

lemma round_half_even_near:
  assumes "\<bar>x - of_int m\<bar> < 1 / 2"
  shows "round_half_even x = m"
proof -
  have e: "\<bar>of_int (round_half_even x) - x\<bar> \<le> 1 / 2" by (rule round_half_even_error)
  have "\<bar>real_of_int (round_half_even x) - real_of_int m\<bar> < 1"
    using assms e by linarith
  then have "\<bar>real_of_int (round_half_even x - m)\<bar> < 1" by simp
  then have "\<bar>round_half_even x - m\<bar> < 1"
    by (metis of_int_abs of_int_less_1_iff)
  then show ?thesis by simp
qed

lemma floor_log2_eq:
  assumes "2 powr (of_int e) \<le> x" and "x < 2 powr (of_int e + 1)"
  shows "\<lfloor>log 2 x\<rfloor> = e"
proof -
  have x: "0 < x" using assms(1) by (smt (verit) powr_gt_zero)
  have "of_int e \<le> log 2 x" using assms(1) x by (simp add: le_log_iff)
  moreover have "log 2 x < of_int e + 1" using assms(2) x by (simp add: log_less_iff)
  ultimately show ?thesis by (simp add: floor_eq_iff)
qed

lemma floor_log2_bounds:
  assumes "0 < x"
  shows "2 powr (of_int \<lfloor>log 2 x\<rfloor>) \<le> x" and "x < 2 powr (of_int \<lfloor>log 2 x\<rfloor> + 1)"
proof -
  have "of_int \<lfloor>log 2 x\<rfloor> \<le> log 2 x" by simp
  then show "2 powr (of_int \<lfloor>log 2 x\<rfloor>) \<le> x"
    using assms le_log_iff [of 2 x "of_int \<lfloor>log 2 x\<rfloor>"] by simp
  have "log 2 x < of_int \<lfloor>log 2 x\<rfloor> + 1" by linarith
  then show "x < 2 powr (of_int \<lfloor>log 2 x\<rfloor> + 1)"
    using assms log_less_iff [of 2 x "of_int \<lfloor>log 2 x\<rfloor> + 1"] by simp
qed


lemma scaled_round_error:
  assumes "0 < q"
  shows "\<bar>of_int (round_half_even (x / q)) * q - x\<bar> \<le> q / 2"
proof -
  have "of_int (round_half_even (x / q)) * q - x = (of_int (round_half_even (x / q)) - x / q) * q"
    using assms by (simp add: field_simps)
  then have "\<bar>of_int (round_half_even (x / q)) * q - x\<bar>
      = \<bar>of_int (round_half_even (x / q)) - x / q\<bar> * q"
    using assms by (simp add: abs_mult)
  also have "\<dots> \<le> 1 / 2 * q"
    using assms by (intro mult_right_mono round_half_even_error) simp
  finally show ?thesis by simp
qed

lemma scaled_round_snap:
  assumes "0 < q" and "q * of_int N = 1" and "\<bar>x - of_int k\<bar> < q / 2"
  shows "of_int (round_half_even (x / q)) * q = of_int k"
proof -
  have kq: "of_int k / q = of_int (k * N)"
    using assms(1,2) by (simp add: field_simps)
  have "x / q - of_int k / q = (x - of_int k) / q"
    by (simp add: diff_divide_distrib)
  then have "\<bar>x / q - of_int k / q\<bar> = \<bar>x - of_int k\<bar> / q"
    using assms(1) by simp
  also have "\<dots> < 1 / 2"
    using assms(1,3) by (simp add: field_simps)
  finally have "round_half_even (x / q) = k * N"
    unfolding kq by (rule round_half_even_near)
  then have "of_int (round_half_even (x / q)) * q = of_int k * (of_int N * q)"
    by simp
  also have "\<dots> = of_int k"
    using assms(2) by (simp add: mult.commute)
  finally show ?thesis .
qed

lemma double_round_normal:
  assumes "2 powr (- 1022) \<le> x"
  shows "double_round x
         = of_int (round_half_even (x / 2 powr (of_int \<lfloor>log 2 x\<rfloor> - 52)))
           * 2 powr (of_int \<lfloor>log 2 x\<rfloor> - 52)"
proof -
  have x: "0 < x" using assms by (smt (verit) powr_gt_zero)
  have "- 1022 \<le> log 2 x" using assms x le_log_iff [of 2 x "- 1022"] by simp
  then have e: "- 1022 \<le> \<lfloor>log 2 x\<rfloor>" by (simp add: le_floor_iff)
  have m: "max \<lfloor>log 2 x\<rfloor> (- 1022) = \<lfloor>log 2 x\<rfloor>" using e by simp
  have ax: "\<bar>x\<bar> = x" using x by simp
  show ?thesis
    unfolding double_round_def Let_def ax m using x by simp
qed

lemma double_round_error:
  assumes "2 powr (- 1022) \<le> x"
  shows "\<bar>double_round x - x\<bar> \<le> 2 powr (of_int \<lfloor>log 2 x\<rfloor> - 53)"
proof -
  have "\<bar>double_round x - x\<bar> \<le> 2 powr (of_int \<lfloor>log 2 x\<rfloor> - 52) / 2"
    unfolding double_round_normal [OF assms] by (rule scaled_round_error) simp
  also have "\<dots> = 2 powr (of_int \<lfloor>log 2 x\<rfloor> - 53)"
    by (simp add: powr_diff)
  finally show ?thesis .
qed

lemma double_round_snap:
  assumes "2 powr (- 1022) \<le> x" and "x < 2 ^ 53" and "\<bar>x - of_int k\<bar> \<le> x / 2 ^ 54"
  shows "double_round x = of_int k"
proof -
  have x: "0 < x" using assms(1) by (smt (verit) powr_gt_zero)
  let ?e = "\<lfloor>log 2 x\<rfloor>"
  let ?q = "2 powr (of_int ?e - 52) :: real"
  have "log 2 x < 53" using assms(2) x log_less_iff [of 2 x 53] by (simp add: powr_realpow)
  then have e52: "?e \<le> 52" by (simp add: floor_le_iff)
  have "?q * 2 powr (of_int (52 - ?e)) = 1"
    by (simp add: powr_add [symmetric])
  moreover have "2 powr (of_int (52 - ?e)) = 2 powr (real (nat (52 - ?e)))"
    using e52 by simp
  moreover have "(2::real) powr (real (nat (52 - ?e))) = of_int (2 ^ nat (52 - ?e))"
    by (simp add: powr_realpow)
  ultimately have qN: "?q * of_int (2 ^ nat (52 - ?e)) = 1" by simp
  have "x / 2 ^ 54 < 2 powr (of_int ?e + 1) / 2 ^ 54"
    using floor_log2_bounds(2) [OF x] by (simp add: divide_strict_right_mono)
  also have "\<dots> = ?q / 2"
  proof -
    have "(2::real) powr (real 54) = 2 ^ 54" by (rule powr_realpow) simp
    then have p54: "(2::real) ^ 54 = 2 powr 54" by simp
    have "2 powr (of_int ?e + 1) / (2::real) ^ 54 = 2 powr (of_int ?e + 1) / 2 powr 54"
      by (simp only: p54)
    also have "\<dots> = 2 powr (of_int ?e + 1 - 54)"
      by (simp only: powr_diff)
    also have "\<dots> = 2 powr (of_int ?e - 52 - 1)" by simp
    also have "\<dots> = ?q / 2" by (simp add: powr_diff)
    finally show ?thesis .
  qed
  finally have near: "\<bar>x - of_int k\<bar> < ?q / 2" using assms(3) by linarith
  show ?thesis
    unfolding double_round_normal [OF assms(1)]
    by (rule scaled_round_snap [OF _ qN near]) simp
qed


lemma round_half_even_nonneg: "0 \<le> x \<Longrightarrow> 0 \<le> round_half_even x"
  unfolding round_half_even_def by (auto simp: le_floor_iff)

lemma double_round_nonneg: "0 \<le> x \<Longrightarrow> 0 \<le> double_round x"
  by (simp add: double_round_def Let_def round_half_even_nonneg)

lemma tiny_le_eighth: "(2::real) powr (- 1022) \<le> 1 / 8"
proof -
  have "(2::real) powr (- 1022) \<le> 2 powr (- 3)" by (intro powr_mono) simp_all
  also have "\<dots> = 1 / 8" by (simp add: powr_neg_numeral)
  finally show ?thesis .
qed

lemma double_round_of_int:
  assumes "0 \<le> n" and "n < 2 ^ 53"
  shows "double_round (of_int n) = of_int n"
proof (cases "n = 0")
  case True
  then show ?thesis by (simp add: double_round_def)
next
  case False
  with assms(1) have "1 \<le> n" by simp
  then have one: "(1::real) \<le> of_int n" by simp
  have normal: "2 powr (- 1022) \<le> real_of_int n"
    using tiny_le_eighth one by linarith
  have hi: "real_of_int n < 2 ^ 53"
    using assms(2) by (metis of_int_less_iff of_int_numeral of_int_power)
  show ?thesis
    by (rule double_round_snap [OF normal hi]) (use one in simp)
qed

lemma double_mul_trunc:
  fixes c d :: real and p n :: int
  assumes c: "c = of_int p / 20 - d" and d0: "0 \<le> d" and d1: "d * 2 ^ 54 \<le> c"
    and d2: "d * 2 ^ 49 \<le> 1 / 80" and c8: "1 / 8 \<le> c" and c1: "c \<le> 1"
    and n0: "0 < n" and n1: "n < 2 ^ 49"
  shows "\<lfloor>double_round (c * of_int n)\<rfloor> = (p * n) div 20"
proof -
  let ?x = "c * real_of_int n"
  let ?K = "(p * n) div 20"
  let ?f = "(p * n) mod 20"
  have rn1: "(1::real) \<le> of_int n" using n0 by simp
  have rn2: "real_of_int n < 2 ^ 49"
    using n1 by (metis of_int_less_iff of_int_numeral of_int_power)
  have x_lo: "1 / 8 \<le> ?x"
    using mult_mono [of "1 / 8" c 1 "real_of_int n"] c8 rn1 by simp
  have x_hi: "?x < 2 ^ 49"
  proof -
    have "?x \<le> 1 * real_of_int n" using c1 rn1 by (intro mult_right_mono) simp_all
    then show ?thesis using rn2 by simp
  qed
  have normal: "2 powr (- 1022) \<le> ?x"
    using tiny_le_eighth x_lo by linarith
  have "p * n = 20 * ?K + ?f" by simp
  then have "real_of_int (p * n) = real_of_int (20 * ?K + ?f)" by (rule arg_cong)
  then have pn: "real_of_int p * real_of_int n = 20 * real_of_int ?K + real_of_int ?f"
    by (simp only: of_int_add of_int_mult of_int_numeral)
  have eq: "?x = real_of_int ?K + real_of_int ?f / 20 - d * real_of_int n"
    unfolding c using pn by (simp add: field_simps)
  have dn0: "0 \<le> d * real_of_int n" using d0 rn1 by simp
  have dn1: "d * real_of_int n \<le> 1 / 80"
  proof -
    have "d * real_of_int n \<le> d * 2 ^ 49" using d0 rn2 by (intro mult_left_mono) simp_all
    with d2 show ?thesis by linarith
  qed
  have f0: "0 \<le> ?f" and f20: "?f < 20" by simp_all
  show ?thesis
  proof (cases "?f = 0")
    case True
    have "\<bar>?x - real_of_int ?K\<bar> = d * real_of_int n"
      using eq True dn0 by simp
    moreover have "d * real_of_int n \<le> ?x / 2 ^ 54"
    proof -
      have "d * 2 ^ 54 * real_of_int n \<le> c * real_of_int n"
        using d1 rn1 by (intro mult_right_mono) simp_all
      then show ?thesis by (simp add: field_simps)
    qed
    ultimately have near: "\<bar>?x - real_of_int ?K\<bar> \<le> ?x / 2 ^ 54" by simp
    have hi: "?x < 2 ^ 53" using x_hi by simp
    have "double_round ?x = real_of_int ?K"
      by (rule double_round_snap [OF normal hi near])
    then show ?thesis by simp
  next
    case False
    with f0 have f1: "1 \<le> ?f" by linarith
    have rf1: "(1::real) \<le> real_of_int ?f" using f1 by linarith
    have rf19: "real_of_int ?f \<le> 19" using f20 by linarith
    have xpos: "0 < ?x" using x_lo by simp
    have "log 2 ?x < 49"
      using x_hi xpos log_less_iff [of 2 ?x 49] by (simp add: powr_realpow)
    then have "\<lfloor>log 2 ?x\<rfloor> \<le> 48" by (simp add: floor_le_iff)
    then have "real_of_int \<lfloor>log 2 ?x\<rfloor> - 53 \<le> - 5" by simp
    then have "(2::real) powr (real_of_int \<lfloor>log 2 ?x\<rfloor> - 53) \<le> 2 powr (- 5)"
      by (intro powr_mono) simp_all
    then have "\<bar>double_round ?x - ?x\<bar> \<le> 2 powr (- 5)"
      using double_round_error [OF normal] by linarith
    then have err: "\<bar>double_round ?x - ?x\<bar> \<le> 1 / 32"
      by (simp add: powr_neg_numeral)
    have lo: "real_of_int ?K \<le> double_round ?x"
      using err eq rf1 dn1 by linarith
    have up: "double_round ?x < real_of_int ?K + 1"
      using err eq rf19 dn0 by linarith
    from lo up show ?thesis by (simp add: floor_eq_iff)
  qed
qed

lemma double_85: "double_round 0.85 = 7656119366529843 / 2 ^ 53"
proof -
  have normal: "(2::real) powr (- 1022) \<le> 0.85"
    using tiny_le_eighth by simp
  have e: "\<lfloor>log 2 (0.85::real)\<rfloor> = - 1"
    by (rule floor_log2_eq) (simp_all add: powr_neg_numeral)
  show ?thesis
    unfolding double_round_normal [OF normal] e
    by (simp add: round_half_even_def powr_neg_numeral)
qed

lemma double_15: "double_round 0.15 = 5404319552844595 / 2 ^ 55"
proof -
  have normal: "(2::real) powr (- 1022) \<le> 0.15"
    using tiny_le_eighth by simp
  have e: "\<lfloor>log 2 (0.15::real)\<rfloor> = - 3"
    by (rule floor_log2_eq) (simp_all add: powr_neg_numeral)
  show ?thesis
    unfolding double_round_normal [OF normal] e
    by (simp add: round_half_even_def powr_neg_numeral)
qed


lemma py_int_nonneg: "0 \<le> x \<Longrightarrow> py_int x = \<lfloor>x\<rfloor>"
  by (simp add: py_int_def)

lemma double_round_at:
  assumes "2 powr (of_int e) \<le> x" and "x < 2 powr (of_int e + 1)" and "- 1022 \<le> e"
  shows "double_round x
         = of_int (round_half_even (x / 2 powr (of_int e - 52))) * 2 powr (of_int e - 52)"
proof -
  have "(2::real) powr (- 1022) \<le> 2 powr (of_int e)"
    using assms(3) by (intro powr_mono) simp_all
  with assms(1) have normal: "2 powr (- 1022) \<le> x" by linarith
  show ?thesis
    unfolding double_round_normal [OF normal] floor_log2_eq [OF assms(1,2)] ..
qed

lemma leaks_breaks_of_small:
  assumes "0 \<le> n" and "n < 2 ^ 49"
  shows "leaks_breaks_of n = ((17 * n) div 20, (3 * n) div 20)"
proof (cases "n = 0")
  case True
  then show ?thesis
    by (simp add: leaks_breaks_of_def float_mul_def float_of_int_def double_round_def py_int_def)
next
  case False
  with assms(1) have n0: "0 < n" by simp
  have "n < 2 ^ 53" using assms(2) by simp
  then have conv: "float_of_int n = of_int n"
    unfolding float_of_int_def using assms(1) by (intro double_round_of_int)
  have rn: "(0::real) \<le> of_int n" using assms(1) by simp
  have a: "\<lfloor>double_round (7656119366529843 / 2 ^ 53 * real_of_int n)\<rfloor> = (17 * n) div 20"
    by (rule double_mul_trunc [where d = "1 / (5 * 2 ^ 53)", OF _ _ _ _ _ _ n0 assms(2)]) simp_all
  have b: "\<lfloor>double_round (5404319552844595 / 2 ^ 55 * real_of_int n)\<rfloor> = (3 * n) div 20"
    by (rule double_mul_trunc [where d = "1 / (5 * 2 ^ 55)", OF _ _ _ _ _ _ n0 assms(2)]) simp_all
  have pa: "0 \<le> double_round (7656119366529843 / 2 ^ 53 * real_of_int n)"
    using rn by (intro double_round_nonneg) simp
  have pb: "0 \<le> double_round (5404319552844595 / 2 ^ 55 * real_of_int n)"
    using rn by (intro double_round_nonneg) simp
  show ?thesis
    unfolding leaks_breaks_of_def float_mul_def conv double_85 double_15
    using a b pa pb by (simp only: py_int_nonneg)
qed

text \<open>
  C8, amended: for every damage count with \<open>0 \<le> count < 2 ^ 49\<close> (about 5.6e14),
  \<open>leaks = floor(0.85 * count)\<close> and \<open>breaks = floor(0.15 * count)\<close>, the floors of
  the exact products (truncation, not rounding); both are non-negative and
  \<open>leaks + breaks \<le> count\<close>.
\<close>

theorem leak_break_split:
  assumes "0 \<le> damage" and "damage < 2 ^ 49"
  shows "leaks_breaks_of damage = (\<lfloor>0.85 * real_of_int damage\<rfloor>, \<lfloor>0.15 * real_of_int damage\<rfloor>)
       \<and> 0 \<le> fst (leaks_breaks_of damage) \<and> 0 \<le> snd (leaks_breaks_of damage)
       \<and> fst (leaks_breaks_of damage) + snd (leaks_breaks_of damage) \<le> damage"
proof -
  have "0.85 * real_of_int damage = real_of_int (17 * damage) / real_of_int 20" by simp
  then have a: "\<lfloor>0.85 * real_of_int damage\<rfloor> = (17 * damage) div 20"
    by (simp only: floor_divide_of_int_eq)
  have "0.15 * real_of_int damage = real_of_int (3 * damage) / real_of_int 20" by simp
  then have b: "\<lfloor>0.15 * real_of_int damage\<rfloor> = (3 * damage) div 20"
    by (simp only: floor_divide_of_int_eq)
  have eq: "leaks_breaks_of damage = ((17 * damage) div 20, (3 * damage) div 20)"
    by (rule leaks_breaks_of_small [OF assms])
  have "0 \<le> (17 * damage) div 20" and "0 \<le> (3 * damage) div 20"
    and "(17 * damage) div 20 + (3 * damage) div 20 \<le> damage"
    using assms(1) by simp_all
  then show ?thesis unfolding eq a b by simp
qed

theorem leak_break_split_witness:
  "(0::int) \<le> 7 \<and> (7::int) < 2 ^ 49 \<and> leaks_breaks_of 7 = (5, 1) \<and> (5::int) + 1 \<le> 7"
proof -
  have "leaks_breaks_of 7 = (\<lfloor>0.85 * real_of_int 7\<rfloor>, \<lfloor>0.15 * real_of_int 7\<rfloor>)"
    using leak_break_split [of 7] by simp
  moreover have "\<lfloor>0.85 * real_of_int 7\<rfloor> = 5" by (simp add: floor_eq_iff)
  moreover have "\<lfloor>0.15 * real_of_int 7\<rfloor> = 1" by (simp add: floor_eq_iff)
  ultimately show ?thesis by simp
qed

lemma leaks_of_large:
  "fst (leaks_breaks_of 1324870334260127) = 1126139784121108"
proof -
  have conv: "float_of_int 1324870334260127 = 1324870334260127"
    unfolding float_of_int_def using double_round_of_int [of 1324870334260127] by simp
  have "double_round (7656119366529843 / 2 ^ 53 * 1324870334260127)
      = of_int (round_half_even (7656119366529843 / 2 ^ 53 * 1324870334260127 / 2 powr (of_int 50 - 52)))
        * 2 powr (of_int 50 - 52)"
    by (rule double_round_at) (simp_all add: powr_neg_numeral)
  also have "\<dots> = 1126139784121108"
    by (simp add: powr_neg_numeral round_half_even_def)
  finally show ?thesis
    unfolding leaks_breaks_of_def float_mul_def conv double_85 by (simp add: py_int_def)
qed

lemma split_of_huge:
  "leaks_breaks_of 17427369338653963 = (14813263937855870, 2614105400798094)"
proof -
  have "double_round (of_int 17427369338653963)
      = of_int (round_half_even (of_int 17427369338653963 / 2 powr (of_int 53 - 52)))
        * 2 powr (of_int 53 - 52)"
    by (rule double_round_at) simp_all
  also have "\<dots> = 17427369338653964"
    by (simp add: round_half_even_def)
  finally have conv: "float_of_int 17427369338653963 = 17427369338653964"
    by (simp add: float_of_int_def)
  have "double_round (7656119366529843 / 2 ^ 53 * 17427369338653964)
      = of_int (round_half_even (7656119366529843 / 2 ^ 53 * 17427369338653964 / 2 powr (of_int 53 - 52)))
        * 2 powr (of_int 53 - 52)"
    by (rule double_round_at) simp_all
  also have "\<dots> = 14813263937855870"
    by (simp add: round_half_even_def)
  finally have a: "double_round (7656119366529843 / 2 ^ 53 * 17427369338653964) = 14813263937855870" .
  have "double_round (5404319552844595 / 2 ^ 55 * 17427369338653964)
      = of_int (round_half_even (5404319552844595 / 2 ^ 55 * 17427369338653964 / 2 powr (of_int 51 - 52)))
        * 2 powr (of_int 51 - 52)"
    by (rule double_round_at) simp_all
  also have "\<dots> = 5228210801596189 / 2"
    by (simp add: round_half_even_def)
  finally have b: "double_round (5404319552844595 / 2 ^ 55 * 17427369338653964) = 5228210801596189 / 2" .
  show ?thesis
    unfolding leaks_breaks_of_def float_mul_def conv double_85 double_15 a b
    by (simp add: py_int_def)
qed

text \<open>
  C8. The claim: for every non-negative damage count, leaks and breaks are the floors of
  0.85 and 0.15 times the count, and \<open>leaks + breaks \<le> count\<close>. The products are
  doubles: at the count 1324870334260127 the product \<open>0.85 * count\<close> is rounded up to
  an integer and leaks is the floor plus one; at 17427369338653963 the count itself is
  rounded when converted, and \<open>leaks + breaks = count + 1\<close>.
\<close>

theorem leak_break_split_fails_large:
  "fst (leaks_breaks_of 1324870334260127) = 1126139784121108
   \<and> \<lfloor>0.85 * real_of_int 1324870334260127\<rfloor> = 1126139784121107
   \<and> leaks_breaks_of 17427369338653963 = (14813263937855870, 2614105400798094)
   \<and> (14813263937855870 :: int) + 2614105400798094 = 17427369338653963 + 1"
  using leaks_of_large split_of_huge by (simp add: floor_eq_iff)

subsection \<open>The pump loop and the pump entries of the serviceability map\<close>

lemma pump_sampler_total: "\<exists>state. determine_pump_damage_state pga g = Inr (state, stl g)"
  by (simp add: determine_pump_damage_state_def random_uniform_def)

lemma tank_sampler_total: "\<exists>state. determine_tank_damage_state pga g = Inr (state, stl g)"
  by (simp add: determine_tank_damage_state_def random_uniform_def)

lemma pump_level_in_table: "dict_get pump_operational_levels state 1.0 \<in> {1.0, 0.9, 0.8, 0.6, 0.0}"
  by (simp add: dict_get_def pump_operational_levels_def)

lemma pump_step_result:
  assumes "pump_step pumps_pga p (wn, perf, g) = Inr s'"
  obtains state where
    "determine_pump_damage_state (series_get_default pumps_pga p 0) g = Inr (state, stl g)"
    and "s' = (wn, perf(p \<mapsto> dict_get pump_operational_levels state 1.0), stl g)"
proof -
  obtain state where st: "determine_pump_damage_state (series_get_default pumps_pga p 0) g = Inr (state, stl g)"
    using pump_sampler_total by blast
  with assms have "s' = (wn, perf(p \<mapsto> dict_get pump_operational_levels state 1.0), stl g)"
    by (auto simp: pump_step_def split: option.splits)
  with st show ?thesis by (rule that)
qed

lemma pump_loop_frame:
  "pump_loop pumps_pga ps (wn, perf, g) = Inr (wn', perf', g')
   \<Longrightarrow> wn' = wn \<and> g' = sdrop (length ps) g \<and> dom perf' = dom perf \<union> set ps"
proof (induction ps arbitrary: perf g)
  case Nil
  then show ?case by simp
next
  case (Cons p ps)
  from Cons.prems obtain s1 where s1: "pump_step pumps_pga p (wn, perf, g) = Inr s1"
    and rest: "pump_loop pumps_pga ps s1 = Inr (wn', perf', g')"
    by (auto split: sum.splits)
  from s1 obtain state where
    "s1 = (wn, perf(p \<mapsto> dict_get pump_operational_levels state 1.0), stl g)"
    by (rule pump_step_result)
  with rest Cons.IH show ?case by auto
qed

lemma pump_loop_keeps:
  "pump_loop pumps_pga ps (wn, perf, g) = Inr (wn', perf', g') \<Longrightarrow> p \<notin> set ps
   \<Longrightarrow> perf' p = perf p"
proof (induction ps arbitrary: perf g)
  case Nil
  then show ?case by simp
next
  case (Cons q ps)
  from Cons.prems obtain s1 where s1: "pump_step pumps_pga q (wn, perf, g) = Inr s1"
    and rest: "pump_loop pumps_pga ps s1 = Inr (wn', perf', g')"
    by (auto split: sum.splits)
  from s1 obtain state where
    "s1 = (wn, perf(q \<mapsto> dict_get pump_operational_levels state 1.0), stl g)"
    by (rule pump_step_result)
  with rest Cons.IH Cons.prems(2) show ?case by auto
qed

lemma pump_loop_level:
  "pump_loop pumps_pga ps (wn, perf, g) = Inr (wn', perf', g') \<Longrightarrow> p \<in> set ps
   \<Longrightarrow> \<exists>state. perf' p = Some (dict_get pump_operational_levels state 1.0)"
proof (induction ps arbitrary: perf g)
  case Nil
  then show ?case by simp
next
  case (Cons q ps)
  from Cons.prems obtain s1 where s1: "pump_step pumps_pga q (wn, perf, g) = Inr s1"
    and rest: "pump_loop pumps_pga ps s1 = Inr (wn', perf', g')"
    by (auto split: sum.splits)
  from s1 obtain state where
    s1_eq: "s1 = (wn, perf(q \<mapsto> dict_get pump_operational_levels state 1.0), stl g)"
    by (rule pump_step_result)
  show ?case
  proof (cases "p \<in> set ps")
    case True
    with rest s1_eq Cons.IH show ?thesis by blast
  next
    case False
    with Cons.prems(2) have "p = q" by simp
    moreover have "perf' p = (perf(q \<mapsto> dict_get pump_operational_levels state 1.0)) p"
      using rest False unfolding s1_eq by (rule pump_loop_keeps)
    ultimately show ?thesis by auto
  qed
qed

lemma pump_loop_sample:
  "pump_loop pumps_pga ps (wn, perf, g) = Inr (wn', perf', g') \<Longrightarrow> distinct ps
   \<Longrightarrow> i < length ps
   \<Longrightarrow> determine_pump_damage_state (series_get_default pumps_pga (ps ! i) 0) (sdrop i g)
         = Inr (state, gi)
   \<Longrightarrow> perf' (ps ! i) = Some (dict_get pump_operational_levels state 1.0)"
proof (induction ps arbitrary: perf g i)
  case Nil
  then show ?case by simp
next
  case (Cons q ps)
  from Cons.prems(1) obtain s1 where s1: "pump_step pumps_pga q (wn, perf, g) = Inr s1"
    and rest: "pump_loop pumps_pga ps s1 = Inr (wn', perf', g')"
    by (auto split: sum.splits)
  from s1 obtain st where
    st: "determine_pump_damage_state (series_get_default pumps_pga q 0) g = Inr (st, stl g)"
    and s1_eq: "s1 = (wn, perf(q \<mapsto> dict_get pump_operational_levels st 1.0), stl g)"
    by (rule pump_step_result)
  show ?case
  proof (cases i)
    case 0
    with Cons.prems(4) st have "st = state" by simp
    moreover have "perf' q = (perf(q \<mapsto> dict_get pump_operational_levels st 1.0)) q"
      using pump_loop_keeps [OF rest [unfolded s1_eq], of q] Cons.prems(2) by simp
    ultimately show ?thesis using 0 by simp
  next
    case (Suc j)
    with Cons.prems have "j < length ps" "distinct ps"
      "determine_pump_damage_state (series_get_default pumps_pga (ps ! j) 0) (sdrop j (stl g))
         = Inr (state, gi)"
      by simp_all
    with rest Cons.IH [of _ "stl g" j] show ?thesis
      unfolding s1_eq Suc by simp
  qed
qed

lemma pump_serviceability_loop_keeps:
  "pump_serviceability_loop perf ps serv = Inr serv' \<Longrightarrow> p \<notin> set ps \<Longrightarrow> serv' p = serv p"
  by (induction ps arbitrary: serv) (auto split: option.splits)

lemma pump_serviceability_loop_entry:
  "pump_serviceability_loop perf ps serv = Inr serv' \<Longrightarrow> p \<in> set ps
   \<Longrightarrow> \<exists>level. perf p = Some level \<and> serv' p = Some (Finite level)"
proof (induction ps arbitrary: serv)
  case Nil
  then show ?case by simp
next
  case (Cons q ps)
  from Cons.prems(1) obtain level where lv: "perf q = Some level"
    and rest: "pump_serviceability_loop perf ps (serv(q \<mapsto> Finite level)) = Inr serv'"
    by (auto split: option.splits)
  show ?case
  proof (cases "p \<in> set ps")
    case True
    with rest Cons.IH show ?thesis by blast
  next
    case False
    with Cons.prems(2) have "p = q" by simp
    moreover have "serv' p = (serv(q \<mapsto> Finite level)) p"
      using rest False by (rule pump_serviceability_loop_keeps)
    ultimately show ?thesis using lv by simp
  qed
qed

lemma serviceability_pump_entry:
  assumes "serviceability wn res levels perf = Inr serv" and "p \<in> set (pump_name_list wn)"
  shows "\<exists>level. perf p = Some level \<and> serv p = Some (Finite level)"
  using assms
  by (auto simp: serviceability_def split: sum.splits dest: pump_serviceability_loop_entry)


lemma example_pump_cell:
  "pump_cell example_pumps_pga example_network (sconst (1 / 2))
   = Inr (example_network, [''P1'' \<mapsto> 0.8, ''P2'' \<mapsto> 0.9], sconst (1 / 2))"
proof -
  have p1: "determine_pump_damage_state (9 / 25) (sconst (1 / 2)) = Inr (''Moderate'', sconst (1 / 2))"
    using pump_sampler_Moderate by simp
  have p2: "determine_pump_damage_state 0 (sconst (1 / 2)) = Inr (''Minor'', sconst (1 / 2))"
    using pump_sampler_nonpos [of 0 "sconst (1 / 2)"] by simp
  show ?thesis
    by (simp add: pump_cell_def example_network_def example_pumps_pga_def pump_step_def
        series_get_default_def p1 p2 dict_get_def pump_operational_levels_def)
qed

lemma example_serviceability:
  "serviceability example_network example_results [''T1'' \<mapsto> 10, ''T2'' \<mapsto> 0]
     [''P1'' \<mapsto> 0.8, ''P2'' \<mapsto> 0.9]
   = Inr [''J1'' \<mapsto> Finite (1 / 2), ''T1'' \<mapsto> Finite (7 / 10), ''T2'' \<mapsto> PosInf,
          ''P1'' \<mapsto> Finite 0.8, ''P2'' \<mapsto> Finite 0.9]"
  by (simp add: serviceability_def example_network_def example_results_def np_divide_def)

text \<open>
  C9. Applying the pump impairments records each pump's operational level (in
  \<open>pump_performance\<close>, for the serviceability report) and leaves the network model
  unchanged: no attribute of a pump, the base speed in particular, is written.
\<close>

theorem pump_cell_leaves_network:
  assumes "pump_cell pumps_pga wn g = Inr (wn', perf, g')"
  shows "wn' = wn \<and> base_speed wn' = base_speed wn \<and> dom perf = set (pump_name_list wn)"
  using pump_loop_frame [OF assms [unfolded pump_cell_def]] by simp

theorem pump_cell_leaves_network_witness:
  "pump_cell example_pumps_pga example_network (sconst (1 / 2))
     = Inr (example_network, [''P1'' \<mapsto> 0.8, ''P2'' \<mapsto> 0.9], sconst (1 / 2))
   \<and> base_speed example_network = [''P1'' \<mapsto> 1, ''P2'' \<mapsto> 1]
   \<and> dom [''P1'' \<mapsto> 0.8 :: real, ''P2'' \<mapsto> 0.9] = set (pump_name_list example_network)"
proof -
  have "dom [''P1'' \<mapsto> 0.8 :: real, ''P2'' \<mapsto> 0.9] = set (pump_name_list example_network)"
    using pump_cell_leaves_network [OF example_pump_cell] by blast
  then show ?thesis
    using example_pump_cell by (simp add: example_network_def)
qed

text \<open>
  C5, amended: every pump's value in the serviceability map is one of the five values of
  the table of operational levels, 1.0, 0.9, 0.8, 0.6 or 0.0, for every run and whatever
  the solver returned.
\<close>

theorem pump_serviceability_in_table:
  assumes "pump_cell pumps_pga wn g = Inr (wn', perf, g')"
    and "pump_name_list wn_after = pump_name_list wn"
    and "serviceability wn_after res levels perf = Inr serv"
    and "p \<in> set (pump_name_list wn)"
  shows "\<exists>level. serv p = Some (Finite level) \<and> level \<in> {1.0, 0.9, 0.8, 0.6, 0.0}"
proof -
  obtain state where "perf p = Some (dict_get pump_operational_levels state 1.0)"
    using pump_loop_level [OF assms(1) [unfolded pump_cell_def] assms(4)] by blast
  moreover obtain level where "perf p = Some level" and "serv p = Some (Finite level)"
    using serviceability_pump_entry [OF assms(3)] assms(2,4) by auto
  ultimately show ?thesis
    using pump_level_in_table [of state] by auto
qed

theorem pump_serviceability_in_table_witness:
  "pump_cell example_pumps_pga example_network (sconst (1 / 2))
     = Inr (example_network, [''P1'' \<mapsto> 0.8, ''P2'' \<mapsto> 0.9], sconst (1 / 2))
   \<and> serviceability example_network example_results [''T1'' \<mapsto> 10, ''T2'' \<mapsto> 0]
       [''P1'' \<mapsto> 0.8, ''P2'' \<mapsto> 0.9]
     = Inr [''J1'' \<mapsto> Finite (1 / 2), ''T1'' \<mapsto> Finite (7 / 10), ''T2'' \<mapsto> PosInf,
          ''P1'' \<mapsto> Finite 0.8, ''P2'' \<mapsto> Finite 0.9]
   \<and> ''P2'' \<in> set (pump_name_list example_network)
   \<and> (\<exists>level. [''J1'' \<mapsto> Finite (1 / 2), ''T1'' \<mapsto> Finite (7 / 10), ''T2'' \<mapsto> PosInf,
          ''P1'' \<mapsto> Finite 0.8, ''P2'' \<mapsto> Finite 0.9] ''P2'' = Some (Finite level)
        \<and> level \<in> {1.0, 0.9, 0.8, 0.6, 0.0})"
proof -
  have mem: "''P2'' \<in> set (pump_name_list example_network)"
    by (simp add: example_network_def)
  from pump_serviceability_in_table [OF example_pump_cell refl example_serviceability mem]
  show ?thesis using example_pump_cell example_serviceability mem by blast
qed

text \<open>
  C5. The claim: every pump's value in the serviceability map is 0 or 1. In the run
  below the pump \<open>P1\<close> (intensity 0.36 g, draw 1/2) is sampled "Moderate" and its entry
  is 0.8.
\<close>

theorem pump_serviceability_not_binary:
  "pump_cell example_pumps_pga example_network (sconst (1 / 2))
     = Inr (example_network, [''P1'' \<mapsto> 0.8, ''P2'' \<mapsto> 0.9], sconst (1 / 2))
   \<and> serviceability example_network example_results [''T1'' \<mapsto> 10, ''T2'' \<mapsto> 0]
       [''P1'' \<mapsto> 0.8, ''P2'' \<mapsto> 0.9]
     = Inr [''J1'' \<mapsto> Finite (1 / 2), ''T1'' \<mapsto> Finite (7 / 10), ''T2'' \<mapsto> PosInf,
          ''P1'' \<mapsto> Finite 0.8, ''P2'' \<mapsto> Finite 0.9]
   \<and> Finite 0.8 \<notin> {Finite 0, Finite 1}"
  using example_pump_cell example_serviceability by simp

text \<open>
  C6. For every pump whose sampled damage state is "Moderate" (the \<open>i\<close>-th pump of the
  list, sampled with the generator after \<open>i\<close> draws), the operational level recorded is
  exactly 0.8, and this value is the pump's entry of the serviceability map, for every
  result \<open>res\<close> of the solver.
\<close>

theorem moderate_pump_level:
  assumes "pump_cell pumps_pga wn g = Inr (wn', perf, g')"
    and "distinct (pump_name_list wn)"
    and "i < length (pump_name_list wn)"
    and "determine_pump_damage_state
           (series_get_default pumps_pga (pump_name_list wn ! i) 0) (sdrop i g)
         = Inr (''Moderate'', gi)"
    and "pump_name_list wn_after = pump_name_list wn"
    and "serviceability wn_after res levels perf = Inr serv"
  shows "perf (pump_name_list wn ! i) = Some 0.8
       \<and> serv (pump_name_list wn ! i) = Some (Finite 0.8)"
proof -
  have "perf (pump_name_list wn ! i) = Some (dict_get pump_operational_levels ''Moderate'' 1.0)"
    by (rule pump_loop_sample [OF assms(1) [unfolded pump_cell_def] assms(2,3,4)])
  then have perf: "perf (pump_name_list wn ! i) = Some 0.8"
    by (simp add: dict_get_def pump_operational_levels_def)
  have "pump_name_list wn ! i \<in> set (pump_name_list wn_after)"
    using assms(3,5) by simp
  from serviceability_pump_entry [OF assms(6) this] perf show ?thesis by auto
qed

theorem moderate_pump_level_witness:
  "pump_cell example_pumps_pga example_network (sconst (1 / 2))
     = Inr (example_network, [''P1'' \<mapsto> 0.8, ''P2'' \<mapsto> 0.9], sconst (1 / 2))
   \<and> distinct (pump_name_list example_network)
   \<and> 0 < length (pump_name_list example_network)
   \<and> determine_pump_damage_state
        (series_get_default example_pumps_pga (pump_name_list example_network ! 0) 0)
        (sdrop 0 (sconst (1 / 2)))
      = Inr (''Moderate'', sconst (1 / 2))
   \<and> serviceability example_network example_results [''T1'' \<mapsto> 10, ''T2'' \<mapsto> 0]
       [''P1'' \<mapsto> 0.8, ''P2'' \<mapsto> 0.9]
     = Inr [''J1'' \<mapsto> Finite (1 / 2), ''T1'' \<mapsto> Finite (7 / 10), ''T2'' \<mapsto> PosInf,
          ''P1'' \<mapsto> Finite 0.8, ''P2'' \<mapsto> Finite 0.9]
   \<and> [''P1'' \<mapsto> 0.8 :: real, ''P2'' \<mapsto> 0.9] (pump_name_list example_network ! 0) = Some 0.8
   \<and> [''J1'' \<mapsto> Finite (1 / 2), ''T1'' \<mapsto> Finite (7 / 10), ''T2'' \<mapsto> PosInf,
          ''P1'' \<mapsto> Finite 0.8, ''P2'' \<mapsto> Finite 0.9] (pump_name_list example_network ! 0)
      = Some (Finite 0.8)"
proof -
  have d: "distinct (pump_name_list example_network)"
    and l: "0 < length (pump_name_list example_network)"
    by (simp_all add: example_network_def)
  have s: "determine_pump_damage_state
        (series_get_default example_pumps_pga (pump_name_list example_network ! 0) 0)
        (sdrop 0 (sconst (1 / 2)))
      = Inr (''Moderate'', sconst (1 / 2))"
    using pump_sampler_Moderate
    by (simp add: example_network_def example_pumps_pga_def series_get_default_def)
  from moderate_pump_level [OF example_pump_cell d l s refl example_serviceability]
  show ?thesis using example_pump_cell example_serviceability d l s by blast
qed


subsection \<open>Assets without an intensity, and tanks that were empty\<close>

lemma tank_step_result:
  assumes "init_level wn t = Some level"
  shows "\<exists>state. determine_tank_damage_state (series_get_default tanks_pga t 0) g = Inr (state, stl g)
         \<and> tank_step tanks_pga t (wn, g)
           = Inr (wn\<lparr>init_level := (init_level wn)(t \<mapsto> level * dict_get tank_operational_levels state 1.0)\<rparr>,
                  stl g)"
proof -
  obtain state where
    st: "determine_tank_damage_state (series_get_default tanks_pga t 0) g = Inr (state, stl g)"
    using tank_sampler_total by blast
  then show ?thesis using assms by (simp add: tank_step_def)
qed

lemma pump_step_total:
  assumes "base_speed wn p = Some speed"
  shows "\<exists>state. determine_pump_damage_state (series_get_default pumps_pga p 0) g = Inr (state, stl g)
         \<and> pump_step pumps_pga p (wn, perf, g)
           = Inr (wn, perf(p \<mapsto> dict_get pump_operational_levels state 1.0), stl g)"
proof -
  obtain state where
    st: "determine_pump_damage_state (series_get_default pumps_pga p 0) g = Inr (state, stl g)"
    using pump_sampler_total by blast
  then show ?thesis using assms by (simp add: pump_step_def)
qed

lemma tank_loop_total:
  "set ts \<subseteq> dom (init_level wn) \<Longrightarrow> \<exists>s. tank_loop tanks_pga ts (wn, g) = Inr s"
proof (induction ts arbitrary: wn g)
  case Nil
  then show ?case by simp
next
  case (Cons t ts)
  then obtain level where lv: "init_level wn t = Some level" by auto
  obtain state where
    step: "tank_step tanks_pga t (wn, g)
           = Inr (wn\<lparr>init_level := (init_level wn)(t \<mapsto> level * dict_get tank_operational_levels state 1.0)\<rparr>,
                  stl g)"
    using tank_step_result [OF lv] by blast
  have "set ts \<subseteq> dom (init_level
          (wn\<lparr>init_level := (init_level wn)(t \<mapsto> level * dict_get tank_operational_levels state 1.0)\<rparr>))"
    using Cons.prems by auto
  from Cons.IH [OF this] show ?case by (simp add: step)
qed

lemma pump_loop_total:
  "set ps \<subseteq> dom (base_speed wn) \<Longrightarrow> \<exists>s. pump_loop pumps_pga ps (wn, perf, g) = Inr s"
proof (induction ps arbitrary: perf g)
  case Nil
  then show ?case by simp
next
  case (Cons p ps)
  then obtain speed where sp: "base_speed wn p = Some speed" by auto
  obtain state where
    step: "pump_step pumps_pga p (wn, perf, g)
           = Inr (wn, perf(p \<mapsto> dict_get pump_operational_levels state 1.0), stl g)"
    using pump_step_total [OF sp] by blast
  from Cons.IH Cons.prems show ?case by (simp add: step)
qed

lemma example_tank_cell:
  "tank_cell Map.empty example_network (sconst (1 / 2))
   = Inr (example_network\<lparr>init_level := [''T1'' \<mapsto> 9, ''T2'' \<mapsto> 0]\<rparr>, sconst (1 / 2))"
proof -
  have t: "determine_tank_damage_state 0 (sconst (1 / 2)) = Inr (''Minor'', sconst (1 / 2))"
    using tank_sampler_nonpos [of 0 "sconst (1 / 2)"] by simp
  show ?thesis
    by (simp add: tank_cell_def example_network_def tank_step_def series_get_default_def t
        dict_get_def tank_operational_levels_def)
qed

lemma tank_step_cases:
  assumes "tank_step tanks_pga t (wn, g) = Inr s'"
  obtains level state where "init_level wn t = Some level"
    and "determine_tank_damage_state (series_get_default tanks_pga t 0) g = Inr (state, stl g)"
    and "s' = (wn\<lparr>init_level := (init_level wn)(t \<mapsto> level * dict_get tank_operational_levels state 1.0)\<rparr>,
               stl g)"
proof -
  from assms obtain level where lv: "init_level wn t = Some level"
    by (auto simp: tank_step_def split: option.splits)
  from tank_step_result [OF lv, of tanks_pga g] assms that lv show ?thesis by auto
qed

lemma tank_loop_keeps:
  "tank_loop tanks_pga ts (wn, g) = Inr (wn', g') \<Longrightarrow> t \<notin> set ts
   \<Longrightarrow> init_level wn' t = init_level wn t"
proof (induction ts arbitrary: wn g)
  case Nil
  then show ?case by simp
next
  case (Cons q ts)
  from Cons.prems(1) obtain s1 where s1: "tank_step tanks_pga q (wn, g) = Inr s1"
    and rest: "tank_loop tanks_pga ts s1 = Inr (wn', g')"
    by (auto split: sum.splits)
  from s1 obtain level state where
    s1_eq: "s1 = (wn\<lparr>init_level := (init_level wn)(q \<mapsto> level * dict_get tank_operational_levels state 1.0)\<rparr>,
                  stl g)"
    by (rule tank_step_cases)
  from Cons.IH [OF rest [unfolded s1_eq]] Cons.prems(2) show ?case by simp
qed

lemma tank_loop_sample:
  "tank_loop tanks_pga ts (wn, g) = Inr (wn', g') \<Longrightarrow> distinct ts \<Longrightarrow> i < length ts
   \<Longrightarrow> init_level wn (ts ! i) = Some level
   \<Longrightarrow> determine_tank_damage_state (series_get_default tanks_pga (ts ! i) 0) (sdrop i g)
         = Inr (state, gi)
   \<Longrightarrow> init_level wn' (ts ! i) = Some (level * dict_get tank_operational_levels state 1.0)"
proof (induction ts arbitrary: wn g i)
  case Nil
  then show ?case by simp
next
  case (Cons q ts)
  from Cons.prems(1) obtain s1 where s1: "tank_step tanks_pga q (wn, g) = Inr s1"
    and rest: "tank_loop tanks_pga ts s1 = Inr (wn', g')"
    by (auto split: sum.splits)
  from s1 obtain lq st where lq: "init_level wn q = Some lq"
    and st: "determine_tank_damage_state (series_get_default tanks_pga q 0) g = Inr (st, stl g)"
    and s1_eq: "s1 = (wn\<lparr>init_level := (init_level wn)(q \<mapsto> lq * dict_get tank_operational_levels st 1.0)\<rparr>,
                  stl g)"
    by (rule tank_step_cases)
  let ?wn1 = "wn\<lparr>init_level := (init_level wn)(q \<mapsto> lq * dict_get tank_operational_levels st 1.0)\<rparr>"
  show ?case
  proof (cases i)
    case 0
    with Cons.prems(4,5) st lq have "st = state" and "lq = level" by simp_all
    moreover have "init_level wn' q = init_level ?wn1 q"
      using tank_loop_keeps [OF rest [unfolded s1_eq], of q] Cons.prems(2) by simp
    ultimately show ?thesis using 0 by simp
  next
    case (Suc j)
    have j: "j < length ts" and d: "distinct ts" and notin: "q \<notin> set ts"
      using Cons.prems(2,3) unfolding Suc by simp_all
    have "ts ! j \<in> set ts" using j by simp
    with notin have ne: "ts ! j \<noteq> q" by auto
    have lv: "init_level ?wn1 (ts ! j) = Some level"
      using Cons.prems(4) ne unfolding Suc by simp
    have smp: "determine_tank_damage_state (series_get_default tanks_pga (ts ! j) 0) (sdrop j (stl g))
         = Inr (state, gi)"
      using Cons.prems(5) unfolding Suc by simp
    from Cons.IH [OF rest [unfolded s1_eq] d j lv smp] show ?thesis
      unfolding Suc by simp
  qed
qed

text \<open>
  C10. A tank or pump whose id is absent from the intensity map does not make the
  pipeline fail: the tank cell and the pump cell return (the names of the lists being
  nodes and links of the network, as in WNTR), the absent asset's damage state is the
  one sampled at the intensity 0 with the generator as it stands at the asset's turn, and
  the operational level of that state is applied: the tank's initial level after the
  cell is its level before times that operational level, and the pump's recorded
  performance is that operational level.
\<close>

theorem absent_intensity_defaults_to_zero:
  assumes "set (tank_name_list wn) \<subseteq> dom (init_level wn)"
    and "distinct (tank_name_list wn)" and "i < length (tank_name_list wn)"
    and "tanks_pga (tank_name_list wn ! i) = None"
    and "init_level wn (tank_name_list wn ! i) = Some level"
    and "set (pump_name_list wn) \<subseteq> dom (base_speed wn)"
    and "distinct (pump_name_list wn)" and "j < length (pump_name_list wn)"
    and "pumps_pga (pump_name_list wn ! j) = None"
  shows "(\<exists>state wn' g'.
            determine_tank_damage_state 0 (sdrop i g) = Inr (state, sdrop (Suc i) g)
            \<and> tank_cell tanks_pga wn g = Inr (wn', g')
            \<and> init_level wn' (tank_name_list wn ! i)
              = Some (level * dict_get tank_operational_levels state 1.0))
       \<and> (\<exists>state perf g'.
            determine_pump_damage_state 0 (sdrop j h) = Inr (state, sdrop (Suc j) h)
            \<and> pump_cell pumps_pga wn h = Inr (wn, perf, g')
            \<and> perf (pump_name_list wn ! j)
              = Some (dict_get pump_operational_levels state 1.0))"
proof -
  obtain wn' g' where run: "tank_loop tanks_pga (tank_name_list wn) (wn, g) = Inr (wn', g')"
    using tank_loop_total [OF assms(1), of tanks_pga g] by auto
  obtain state where
    smp: "determine_tank_damage_state 0 (sdrop i g) = Inr (state, stl (sdrop i g))"
    using tank_sampler_total by blast
  have t0: "series_get_default tanks_pga (tank_name_list wn ! i) 0 = 0"
    using assms(4) by (simp add: series_get_default_def)
  have "init_level wn' (tank_name_list wn ! i)
        = Some (level * dict_get tank_operational_levels state 1.0)"
    by (rule tank_loop_sample [OF run assms(2,3,5)]) (simp only: t0 smp)
  with smp run have tank: "\<exists>state wn' g'.
            determine_tank_damage_state 0 (sdrop i g) = Inr (state, sdrop (Suc i) g)
            \<and> tank_cell tanks_pga wn g = Inr (wn', g')
            \<and> init_level wn' (tank_name_list wn ! i)
              = Some (level * dict_get tank_operational_levels state 1.0)"
    unfolding tank_cell_def by auto
  obtain s where "pump_loop pumps_pga (pump_name_list wn) (wn, Map.empty, h) = Inr s"
    using pump_loop_total [OF assms(6), of pumps_pga Map.empty h] by auto
  then obtain wn2 perf h' where
    prun: "pump_loop pumps_pga (pump_name_list wn) (wn, Map.empty, h) = Inr (wn2, perf, h')"
    by (cases s) auto
  have wn2: "wn2 = wn" using pump_loop_frame [OF prun] by simp
  obtain pstate where
    psmp: "determine_pump_damage_state 0 (sdrop j h) = Inr (pstate, stl (sdrop j h))"
    using pump_sampler_total by blast
  have p0: "series_get_default pumps_pga (pump_name_list wn ! j) 0 = 0"
    using assms(9) by (simp add: series_get_default_def)
  have "perf (pump_name_list wn ! j) = Some (dict_get pump_operational_levels pstate 1.0)"
    by (rule pump_loop_sample [OF prun assms(7,8)]) (simp only: p0 psmp)
  with psmp prun wn2 have pump: "\<exists>state perf g'.
            determine_pump_damage_state 0 (sdrop j h) = Inr (state, sdrop (Suc j) h)
            \<and> pump_cell pumps_pga wn h = Inr (wn, perf, g')
            \<and> perf (pump_name_list wn ! j)
              = Some (dict_get pump_operational_levels state 1.0)"
    unfolding pump_cell_def by auto
  from tank pump show ?thesis by blast
qed

theorem absent_intensity_defaults_to_zero_witness:
  "set (tank_name_list example_network) \<subseteq> dom (init_level example_network)
   \<and> distinct (tank_name_list example_network)
   \<and> 0 < length (tank_name_list example_network)
   \<and> (Map.empty :: string \<rightharpoonup> real) (tank_name_list example_network ! 0) = None
   \<and> init_level example_network (tank_name_list example_network ! 0) = Some 10
   \<and> set (pump_name_list example_network) \<subseteq> dom (base_speed example_network)
   \<and> distinct (pump_name_list example_network)
   \<and> 1 < length (pump_name_list example_network)
   \<and> example_pumps_pga (pump_name_list example_network ! 1) = None
   \<and> (\<exists>state wn' g'.
          determine_tank_damage_state 0 (sdrop 0 (sconst (1 / 2))) = Inr (state, sdrop (Suc 0) (sconst (1 / 2)))
          \<and> tank_cell Map.empty example_network (sconst (1 / 2)) = Inr (wn', g')
          \<and> init_level wn' (tank_name_list example_network ! 0)
            = Some (10 * dict_get tank_operational_levels state 1.0))
   \<and> (\<exists>state perf g'.
          determine_pump_damage_state 0 (sdrop 1 (sconst (1 / 2))) = Inr (state, sdrop (Suc 1) (sconst (1 / 2)))
          \<and> pump_cell example_pumps_pga example_network (sconst (1 / 2)) = Inr (example_network, perf, g')
          \<and> perf (pump_name_list example_network ! 1)
            = Some (dict_get pump_operational_levels state 1.0))
   \<and> tank_cell Map.empty example_network (sconst (1 / 2))
     = Inr (example_network\<lparr>init_level := [''T1'' \<mapsto> 9, ''T2'' \<mapsto> 0]\<rparr>, sconst (1 / 2))
   \<and> pump_cell example_pumps_pga example_network (sconst (1 / 2))
     = Inr (example_network, [''P1'' \<mapsto> 0.8, ''P2'' \<mapsto> 0.9], sconst (1 / 2))"
proof -
  have h1: "set (tank_name_list example_network) \<subseteq> dom (init_level example_network)"
    and h2: "distinct (tank_name_list example_network)"
    and h3: "0 < length (tank_name_list example_network)"
    and h4: "(Map.empty :: string \<rightharpoonup> real) (tank_name_list example_network ! 0) = None"
    and h5: "init_level example_network (tank_name_list example_network ! 0) = Some 10"
    and h6: "set (pump_name_list example_network) \<subseteq> dom (base_speed example_network)"
    and h7: "distinct (pump_name_list example_network)"
    and h8: "1 < length (pump_name_list example_network)"
    and h9: "example_pumps_pga (pump_name_list example_network ! 1) = None"
    by (simp_all add: example_network_def example_pumps_pga_def)
  from absent_intensity_defaults_to_zero [where wn = example_network and tanks_pga = Map.empty
      and i = 0 and level = 10 and pumps_pga = example_pumps_pga and j = 1
      and g = "sconst (1 / 2)" and h = "sconst (1 / 2)", OF h1 h2 h3 h4 h5 h6 h7 h8 h9]
  show ?thesis
    using h1 h2 h3 h4 h5 h6 h7 h8 h9 example_tank_cell example_pump_cell by blast
qed

lemma example_original_tank_levels:
  "original_tank_levels example_network = Inr [''T1'' \<mapsto> 10, ''T2'' \<mapsto> 0]"
  by (simp add: original_tank_levels_def example_network_def)


lemma np_divide_zero: "np_divide a 0 = PosInf \<or> np_divide a 0 = NegInf \<or> np_divide a 0 = NaN"
  by (simp add: np_divide_def)

lemma node_loop_keeps:
  "node_loop wn res levels ns serv = Inr serv' \<Longrightarrow> n \<notin> set ns \<Longrightarrow> serv' n = serv n"
  by (induction ns arbitrary: serv) (auto split: if_splits option.splits)

lemma node_loop_tank:
  "node_loop wn res levels ns serv = Inr serv' \<Longrightarrow> t \<in> set ns
   \<Longrightarrow> t \<in> set (tank_name_list wn)
   \<Longrightarrow> \<exists>head elev original. head_mean res t = Some head \<and> elevation wn t = Some elev
         \<and> levels t = Some original \<and> serv' t = Some (np_divide (head - elev) original)"
proof (induction ns arbitrary: serv)
  case Nil
  then show ?case by simp
next
  case (Cons n ns)
  show ?case
  proof (cases "t \<in> set ns")
    case True
    obtain serv1 where "node_loop wn res levels ns serv1 = Inr serv'"
      using Cons.prems(1) by (auto split: if_splits option.splits)
    from Cons.IH [OF this True Cons.prems(3)] show ?thesis .
  next
    case False
    with Cons.prems(2) have tn: "n = t" by simp
    from Cons.prems(1,3) obtain head elev original where
      vals: "head_mean res t = Some head" "elevation wn t = Some elev" "levels t = Some original"
      and rest: "node_loop wn res levels ns (serv(t \<mapsto> np_divide (head - elev) original)) = Inr serv'"
      unfolding tn by (auto split: option.splits)
    from node_loop_keeps [OF rest False] vals show ?thesis by simp
  qed
qed

text \<open>
  C3. The claim: with an original tank level of 0 the evaluator fails with a
  division-by-zero error or leaves the tank out of the map. What the code does: the tank
  branch has no guard (the junction branch has one); the division is numpy's, which
  returns an infinity or nan, and that value is stored as the tank's serviceability.
\<close>

theorem tank_zero_level_is_divided:
  assumes "serviceability wn res levels perf = Inr serv"
    and "t \<in> set (node_name_list wn)" and "t \<in> set (tank_name_list wn)"
    and "t \<notin> set (pump_name_list wn)" and "levels t = Some 0"
  shows "serv t = Some PosInf \<or> serv t = Some NegInf \<or> serv t = Some NaN"
proof -
  from assms(1) obtain serv0 where
    nodes: "node_loop wn res levels (node_name_list wn) Map.empty = Inr serv0"
    and pumps: "pump_serviceability_loop perf (pump_name_list wn) serv0 = Inr serv"
    by (auto simp: serviceability_def split: sum.splits)
  from node_loop_tank [OF nodes assms(2,3)] assms(5) obtain head elev where
    "serv0 t = Some (np_divide (head - elev) 0)" by auto
  moreover have "serv t = serv0 t"
    by (rule pump_serviceability_loop_keeps [OF pumps assms(4)])
  ultimately show ?thesis using np_divide_zero [of "head - elev"] by auto
qed

theorem tank_zero_level_is_divided_witness:
  "serviceability example_network example_results [''T1'' \<mapsto> 10, ''T2'' \<mapsto> 0]
       [''P1'' \<mapsto> 0.8, ''P2'' \<mapsto> 0.9]
     = Inr [''J1'' \<mapsto> Finite (1 / 2), ''T1'' \<mapsto> Finite (7 / 10), ''T2'' \<mapsto> PosInf,
          ''P1'' \<mapsto> Finite 0.8, ''P2'' \<mapsto> Finite 0.9]
   \<and> ''T2'' \<in> set (node_name_list example_network)
   \<and> ''T2'' \<in> set (tank_name_list example_network)
   \<and> ''T2'' \<notin> set (pump_name_list example_network)
   \<and> [''T1'' \<mapsto> 10 :: real, ''T2'' \<mapsto> 0] ''T2'' = Some 0
   \<and> original_tank_levels example_network = Inr [''T1'' \<mapsto> 10, ''T2'' \<mapsto> 0]
   \<and> [''J1'' \<mapsto> Finite (1 / 2), ''T1'' \<mapsto> Finite (7 / 10), ''T2'' \<mapsto> PosInf,
          ''P1'' \<mapsto> Finite 0.8, ''P2'' \<mapsto> Finite 0.9] ''T2'' = Some PosInf"
proof -
  have h2: "''T2'' \<in> set (node_name_list example_network)"
    and h3: "''T2'' \<in> set (tank_name_list example_network)"
    and h4: "''T2'' \<notin> set (pump_name_list example_network)"
    and h5: "[''T1'' \<mapsto> 10 :: real, ''T2'' \<mapsto> 0] ''T2'' = Some 0"
    by (simp_all add: example_network_def)
  from tank_zero_level_is_divided [OF example_serviceability h2 h3 h4 h5]
  have "[''J1'' \<mapsto> Finite (1 / 2), ''T1'' \<mapsto> Finite (7 / 10), ''T2'' \<mapsto> PosInf,
          ''P1'' \<mapsto> Finite 0.8, ''P2'' \<mapsto> Finite 0.9] ''T2'' = Some PosInf"
    by simp
  then show ?thesis
    using example_serviceability example_original_tank_levels h2 h3 h4 h5 by blast
qed


subsection \<open>Pipelines: damage counts, orifice areas and leaks\<close>

lemma num_damages_loop_result:
  "num_damages_loop lens rr (damages, g) = Inr (damages', g')
   \<Longrightarrow> fst ` set damages' = fst ` set damages \<union> fst ` set rr
       \<and> (distinct (map fst damages) \<longrightarrow> distinct (map fst damages'))
       \<and> poisson_draws g' = sdrop (length rr) (poisson_draws g)
       \<and> uniform_draws g' = uniform_draws g"
proof (induction rr arbitrary: damages g)
  case Nil
  then show ?case by simp
next
  case (Cons item rr)
  obtain pipe rate where item: "item = (pipe, rate)" by (cases item)
  from Cons.prems obtain len where
    rest: "num_damages_loop lens rr
             (AList.update pipe (int (shd (poisson_draws g))) damages,
              g\<lparr>poisson_draws := stl (poisson_draws g)\<rparr>) = Inr (damages', g')"
    unfolding item by (auto simp: poisson_rvs_def split: sum.splits)
  from Cons.IH [OF rest] show ?case
    unfolding item by (auto simp: dom_update distinct_update)
qed

lemma orifice_areas_loop_keys:
  "orifice_areas_loop ars lb = Inr oas \<Longrightarrow> map fst oas = map fst lb"
proof (induction lb arbitrary: oas)
  case Nil
  then show ?case by simp
next
  case (Cons item lb)
  obtain pipe n_leaks n_breaks where item: "item = (pipe, n_leaks, n_breaks)" by (cases item)
  from Cons.prems obtain area others where
    others: "orifice_areas_loop ars lb = Inr others"
    and oas: "oas = (pipe, orifice_area_of n_leaks n_breaks area) # others"
    unfolding item by (auto split: option.splits sum.splits)
  from Cons.IH [OF others] show ?case
    unfolding item oas by simp
qed

lemma orifice_areas_loop_result:
  "orifice_areas_loop ars lb = Inr oas \<Longrightarrow> (pipe, a) \<in> set oas
   \<Longrightarrow> \<exists>n_leaks n_breaks area. (pipe, n_leaks, n_breaks) \<in> set lb
         \<and> map_of ars pipe = Some area \<and> a = orifice_area_of n_leaks n_breaks area"
proof (induction lb arbitrary: oas)
  case Nil
  then show ?case by simp
next
  case (Cons item lb)
  obtain q n_leaks n_breaks where item: "item = (q, n_leaks, n_breaks)" by (cases item)
  from Cons.prems(1) obtain area others where
    area: "map_of ars q = Some area" and others: "orifice_areas_loop ars lb = Inr others"
    and oas: "oas = (q, orifice_area_of n_leaks n_breaks area) # others"
    unfolding item by (auto split: option.splits sum.splits)
  show ?case
  proof (cases "(pipe, a) \<in> set others")
    case True
    from Cons.IH [OF others True] show ?thesis unfolding item by auto
  next
    case False
    with Cons.prems(2) oas have "pipe = q" and "a = orifice_area_of n_leaks n_breaks area"
      by simp_all
    with area show ?thesis unfolding item by auto
  qed
qed

lemma map_of_fold_update:
  "map_of (fold (\<lambda>(pipe_name, len, d). AList.update pipe_name d) xs acc) pipe = Some d
   \<Longrightarrow> (\<exists>len. (pipe, len, d) \<in> set xs) \<or> map_of acc pipe = Some d"
proof (induction xs arbitrary: acc)
  case Nil
  then show ?case by simp
next
  case (Cons x xs)
  obtain n l d' where x: "x = (n, l, d')" by (cases x)
  from Cons.prems have
    "map_of (fold (\<lambda>(pipe_name, len, d). AList.update pipe_name d) xs (AList.update n d' acc)) pipe
     = Some d"
    unfolding x by simp
  from Cons.IH [OF this] show ?case
    unfolding x by (auto simp: update_conv' split: if_splits)
qed

lemma diameters_of_pipe:
  "map_of (diameters_of wn) pipe = Some d \<Longrightarrow> \<exists>len. (pipe, len, d) \<in> set (pipes wn)"
  using map_of_fold_update [of "pipes wn" "[]" pipe d] by (simp add: diameters_of_def)

lemma areas_of_pipe:
  assumes "map_of (map (\<lambda>(pipe_name, d). (pipe_name, area_of d)) (diameters_of wn)) pipe = Some area"
  shows "\<exists>len d. (pipe, len, d) \<in> set (pipes wn) \<and> area = area_of d"
proof -
  from assms obtain d where "map_of (diameters_of wn) pipe = Some d" and "area = area_of d"
    by (auto simp: map_of_map)
  with diameters_of_pipe show ?thesis by blast
qed

lemma orifice_area_of_le: "orifice_area_of n_leaks n_breaks area \<le> area"
  by (simp add: orifice_area_of_def)

lemma failure_probability_pos: "0 < repair_rate * len \<Longrightarrow> 0 < failure_probability repair_rate len"
  by (simp add: failure_probability_def)

lemma failure_probability_le:
  "failure_probability repair_rate len \<le> repair_rate * len"
  using exp_ge_add_one_self [of "- repair_rate * len"] by (simp add: failure_probability_def)

lemma not_failed: "repair_rate * len \<le> u \<Longrightarrow> \<not> u < failure_probability repair_rate len"
  using failure_probability_le [of repair_rate len] by simp

lemma leaks_breaks_of_3: "leaks_breaks_of 3 = (2, 0)"
  by (simp add: leaks_breaks_of_small)

lemma leaks_breaks_of_2: "leaks_breaks_of 2 = (1, 0)"
  by (simp add: leaks_breaks_of_small)

lemma example_pipe_cell:
  "pipe_cell example_RR example_network example_np_random = Inr example_pipe_damage"
proof -
  have nd: "num_damages_loop (link_length example_network) example_RR ([], example_np_random)
            = Inr ([(0, 3), (1, 2)], \<lparr>poisson_draws = sconst 2, uniform_draws = 0 ## sconst (9 / 10)\<rparr>)"
    by (simp add: link_length_def example_network_def example_RR_def example_np_random_def
        iloc_def poisson_rvs_def)
  have ars: "map (\<lambda>(pipe_name, d). (pipe_name, area_of d)) (diameters_of example_network)
             = [(0, area_of (3 / 10)), (1, area_of (1 / 5))]"
    by (simp add: diameters_of_def example_network_def)
  have oas: "orifice_areas_loop [(0, area_of (3 / 10)), (1, area_of (1 / 5))] [(0, 2, 0), (1, 1, 0)]
             = Inr [(0, orifice_area_of 2 0 (area_of (3 / 10))), (1, orifice_area_of 1 0 (area_of (1 / 5)))]"
    by simp
  have f0: "0 < failure_probability (1 / 1000) (1524 / 5)"
    by (rule failure_probability_pos) simp
  have f1: "\<not> 9 / 10 < failure_probability (1 / 1000) (762 / 5)"
    by (rule not_failed) simp
  have ll: "leak_loop example_RR (link_length example_network)
              [(0, orifice_area_of 2 0 (area_of (3 / 10))), (1, orifice_area_of 1 0 (area_of (1 / 5)))]
              (example_network, \<lparr>poisson_draws = sconst 2, uniform_draws = 0 ## sconst (9 / 10)\<rparr>)
            = Inr (example_network
                     \<lparr>split_pipes := [0],
                      leaks := [(0, orifice_area_of 2 0 (area_of (3 / 10)), leak_start_time, leak_end_time)]\<rparr>,
                   \<lparr>poisson_draws = sconst 2, uniform_draws = sconst (9 / 10)\<rparr>)"
    using f0 f1
    by (simp add: link_length_def example_network_def example_RR_def series_getitem_def iloc_def
        np_random_uniform_def split_pipe_def add_leak_def)
  show ?thesis
    unfolding pipe_cell_def nd example_pipe_damage_def
    by (simp add: leaks_breaks_of_3 leaks_breaks_of_2 ars oas ll
        del: leak_loop.simps orifice_areas_loop.simps)
qed


text \<open>
  C7. For every pipe of \<open>orifice_areas\<close>, whatever its leak and break counts and its
  diameter \<open>d\<close>, the orifice area is \<open>min((0.03 * leaks + 0.2 * breaks) * A, A)\<close> with
  \<open>A = pi * (d / 2)\<^sup>2\<close> the cross-sectional area of that pipe, and is at most \<open>A\<close>.
\<close>

theorem orifice_area_at_most_pipe_area:
  assumes "pipe_cell rr wn g = Inr r" and "(pipe, a) \<in> set (orifice_areas r)"
  shows "\<exists>n_leaks n_breaks len d.
           (pipe, n_leaks, n_breaks) \<in> set (leaks_breaks r) \<and> (pipe, len, d) \<in> set (pipes wn)
           \<and> a = min ((0.03 * real_of_int n_leaks + 0.2 * real_of_int n_breaks) * (pi * (d / 2)\<^sup>2))
                     (pi * (d / 2)\<^sup>2)
           \<and> a \<le> pi * (d / 2)\<^sup>2"
proof -
  from assms(1) obtain damages g1 oas s where
    lb: "leaks_breaks r = map (\<lambda>(pipe, damage). (pipe, leaks_breaks_of damage)) damages"
    and oas: "orifice_areas_loop (map (\<lambda>(pipe_name, d). (pipe_name, area_of d)) (diameters_of wn))
                (map (\<lambda>(pipe, damage). (pipe, leaks_breaks_of damage)) damages) = Inr oas"
    and r: "orifice_areas r = oas"
    by (auto simp: pipe_cell_def Let_def split: sum.splits prod.splits)
  from orifice_areas_loop_result [OF oas] assms(2) r obtain n_leaks n_breaks area where
    mem: "(pipe, n_leaks, n_breaks) \<in> set (leaks_breaks r)"
    and area: "map_of (map (\<lambda>(pipe_name, d). (pipe_name, area_of d)) (diameters_of wn)) pipe = Some area"
    and a: "a = orifice_area_of n_leaks n_breaks area"
    unfolding lb by blast
  from areas_of_pipe [OF area] obtain len d where
    pmem: "(pipe, len, d) \<in> set (pipes wn)" and area_eq: "area = area_of d" by blast
  have eq: "a = min ((0.03 * real_of_int n_leaks + 0.2 * real_of_int n_breaks) * (pi * (d / 2)\<^sup>2))
                  (pi * (d / 2)\<^sup>2)"
    unfolding a area_eq by (simp add: orifice_area_of_def area_of_def)
  have le: "a \<le> pi * (d / 2)\<^sup>2"
    unfolding eq by (rule min.cobounded2)
  from mem pmem eq le show ?thesis by blast
qed


theorem orifice_area_at_most_pipe_area_witness:
  "pipe_cell example_RR example_network example_np_random = Inr example_pipe_damage
   \<and> (1, orifice_area_of 1 0 (area_of 0.2)) \<in> set (orifice_areas example_pipe_damage)
   \<and> (\<exists>n_leaks n_breaks len d.
           (1, n_leaks, n_breaks) \<in> set (leaks_breaks example_pipe_damage)
           \<and> (1, len, d) \<in> set (pipes example_network)
           \<and> orifice_area_of 1 0 (area_of 0.2)
             = min ((0.03 * real_of_int n_leaks + 0.2 * real_of_int n_breaks) * (pi * (d / 2)\<^sup>2))
                   (pi * (d / 2)\<^sup>2)
           \<and> orifice_area_of 1 0 (area_of 0.2) \<le> pi * (d / 2)\<^sup>2)"
proof -
  have h2: "(1, orifice_area_of 1 0 (area_of 0.2)) \<in> set (orifice_areas example_pipe_damage)"
    by (simp add: example_pipe_damage_def)
  from orifice_area_at_most_pipe_area [OF example_pipe_cell h2]
  show ?thesis using example_pipe_cell h2 by blast
qed

lemma leak_loop_Cons:
  assumes "leak_loop rr lens ((pipe, a) # rest) (wn, g) = Inr s'"
  obtains rate len where "series_getitem rr pipe = Inr rate" and "iloc lens pipe = Inr len"
    and "leak_loop rr lens rest
           (if shd (uniform_draws g) < failure_probability rate len
            then add_leak (split_pipe wn pipe) pipe a leak_start_time leak_end_time else wn,
            g\<lparr>uniform_draws := stl (uniform_draws g)\<rparr>) = Inr s'"
  using assms by (auto simp: np_random_uniform_def split: sum.splits if_splits)

lemma leak_keys_step:
  "fst ` set (leaks (if c then add_leak (split_pipe wn pipe) pipe a t0 t1 else wn))
   = (if c then insert pipe (fst ` set (leaks wn)) else fst ` set (leaks wn))"
  by (simp add: add_leak_def split_pipe_def)

lemma leak_loop_keys:
  "leak_loop rr lens oas (wn, g) = Inr (wn', g')
   \<Longrightarrow> fst ` set (leaks wn) \<subseteq> fst ` set (leaks wn')
       \<and> fst ` set (leaks wn') \<subseteq> fst ` set (leaks wn) \<union> fst ` set oas"
proof (induction oas arbitrary: wn g)
  case Nil
  then show ?case by simp
next
  case (Cons item oas)
  obtain pipe a where item: "item = (pipe, a)" by (cases item)
  from Cons.prems [unfolded item] obtain rate len where
    rest: "leak_loop rr lens oas
           (if shd (uniform_draws g) < failure_probability rate len
            then add_leak (split_pipe wn pipe) pipe a leak_start_time leak_end_time else wn,
            g\<lparr>uniform_draws := stl (uniform_draws g)\<rparr>) = Inr (wn', g')"
    by (rule leak_loop_Cons)
  from Cons.IH [OF rest] show ?case
    unfolding item leak_keys_step by (auto split: if_splits)
qed

lemma leak_loop_generator:
  "leak_loop rr lens oas (wn, g) = Inr (wn', g')
   \<Longrightarrow> poisson_draws g' = poisson_draws g
       \<and> uniform_draws g' = sdrop (length oas) (uniform_draws g)"
proof (induction oas arbitrary: wn g)
  case Nil
  then show ?case by simp
next
  case (Cons item oas)
  obtain pipe a where item: "item = (pipe, a)" by (cases item)
  from Cons.prems [unfolded item] obtain rate len where
    rest: "leak_loop rr lens oas
           (if shd (uniform_draws g) < failure_probability rate len
            then add_leak (split_pipe wn pipe) pipe a leak_start_time leak_end_time else wn,
            g\<lparr>uniform_draws := stl (uniform_draws g)\<rparr>) = Inr (wn', g')"
    by (rule leak_loop_Cons)
  from Cons.IH [OF rest] show ?case by simp
qed

lemma leak_loop_gate:
  "leak_loop rr lens oas (wn, g) = Inr (wn', g') \<Longrightarrow> distinct (map fst oas)
   \<Longrightarrow> i < length oas \<Longrightarrow> fst (oas ! i) \<notin> fst ` set (leaks wn)
   \<Longrightarrow> \<exists>rate len. series_getitem rr (fst (oas ! i)) = Inr rate
         \<and> iloc lens (fst (oas ! i)) = Inr len
         \<and> ((fst (oas ! i) \<in> fst ` set (leaks wn'))
              = (uniform_draws g !! i < failure_probability rate len))"
proof (induction oas arbitrary: wn g i)
  case Nil
  then show ?case by simp
next
  case (Cons item oas)
  obtain pipe a where item: "item = (pipe, a)" by (cases item)
  from Cons.prems(1) [unfolded item] obtain rate len where
    rate: "series_getitem rr pipe = Inr rate" and len: "iloc lens pipe = Inr len"
    and rest: "leak_loop rr lens oas
           (if shd (uniform_draws g) < failure_probability rate len
            then add_leak (split_pipe wn pipe) pipe a leak_start_time leak_end_time else wn,
            g\<lparr>uniform_draws := stl (uniform_draws g)\<rparr>) = Inr (wn', g')"
    by (rule leak_loop_Cons)
  let ?c = "shd (uniform_draws g) < failure_probability rate len"
  let ?wn1 = "if ?c then add_leak (split_pipe wn pipe) pipe a leak_start_time leak_end_time else wn"
  have keys1: "fst ` set (leaks ?wn1) = (if ?c then insert pipe (fst ` set (leaks wn)) else fst ` set (leaks wn))"
    by (rule leak_keys_step)
  note keys = leak_loop_keys [OF rest]
  show ?case
  proof (cases i)
    case 0
    have notin: "pipe \<notin> fst ` set oas" and old: "pipe \<notin> fst ` set (leaks wn)"
      using Cons.prems(2,4) unfolding item 0 by simp_all
    have "(pipe \<in> fst ` set (leaks wn')) = (pipe \<in> fst ` set (leaks ?wn1))"
      using keys notin by blast
    also have "\<dots> = ?c"
      unfolding keys1 using old by simp
    finally show ?thesis
      using rate len unfolding item 0 by simp
  next
    case (Suc j)
    have j: "j < length oas" and d: "distinct (map fst oas)"
      and notin: "pipe \<notin> fst ` set oas"
      using Cons.prems(2,3) unfolding item Suc by simp_all
    have "fst (oas ! j) \<in> fst ` set oas"
      using j by simp
    with notin have ne: "fst (oas ! j) \<noteq> pipe" by auto
    have "fst (oas ! j) \<notin> fst ` set (leaks ?wn1)"
      unfolding keys1 using Cons.prems(4) ne unfolding item Suc by simp
    from Cons.IH [OF rest d j this] show ?thesis
      unfolding item Suc by simp
  qed
qed

text \<open>
  C2, amended: a Poisson damage count is drawn for every pipe of \<open>RR\<close>, before and
  whatever the failure draws (one draw per item of \<open>RR\<close>, and every pipe with a count
  reaches the last loop); a leak is inserted for a pipe exactly when its uniform failure
  draw is below its failure probability, so a pipe not marked failed gets no leak,
  whatever its sampled count.
\<close>

theorem failure_draw_gates_leak:
  assumes "pipe_cell rr wn g = Inr r" and "leaks wn = []" and "i < length (orifice_areas r)"
  shows "fst ` set (num_damages r) = fst ` set rr
       \<and> map fst (orifice_areas r) = map fst (num_damages r)
       \<and> poisson_draws (generator r) = sdrop (length rr) (poisson_draws g)
       \<and> (\<exists>rate len. series_getitem rr (fst (orifice_areas r ! i)) = Inr rate
             \<and> iloc (link_length wn) (fst (orifice_areas r ! i)) = Inr len
             \<and> ((fst (orifice_areas r ! i) \<in> fst ` set (leaks (damaged_network r)))
                  = (uniform_draws g !! i < failure_probability rate len)))"
proof -
  from assms(1) obtain g1 wn' g2 where
    nd: "num_damages_loop (link_length wn) rr ([], g) = Inr (num_damages r, g1)"
    and oas: "orifice_areas_loop (map (\<lambda>(pipe_name, d). (pipe_name, area_of d)) (diameters_of wn))
                (map (\<lambda>(pipe, damage). (pipe, leaks_breaks_of damage)) (num_damages r))
              = Inr (orifice_areas r)"
    and ll: "leak_loop rr (link_length wn) (orifice_areas r) (wn, g1) = Inr (wn', g2)"
    and r: "damaged_network r = wn'" "generator r = g2"
    by (auto simp: pipe_cell_def Let_def split: sum.splits prod.splits)
  from num_damages_loop_result [OF nd] have
    k: "fst ` set (num_damages r) = fst ` set rr" and dist: "distinct (map fst (num_damages r))"
    and p1: "poisson_draws g1 = sdrop (length rr) (poisson_draws g)"
    and u1: "uniform_draws g1 = uniform_draws g"
    by simp_all
  have keys: "map fst (orifice_areas r) = map fst (num_damages r)"
    using orifice_areas_loop_keys [OF oas] by (simp add: comp_def case_prod_unfold)
  have p2: "poisson_draws g2 = poisson_draws g1"
    using leak_loop_generator [OF ll] by simp
  have "fst (orifice_areas r ! i) \<notin> fst ` set (leaks wn)"
    using assms(2) by simp
  from leak_loop_gate [OF ll _ assms(3) this] dist keys u1 r p1 p2 k show ?thesis
    by simp
qed


theorem failure_draw_gates_leak_witness:
  "pipe_cell example_RR example_network example_np_random = Inr example_pipe_damage
   \<and> leaks example_network = []
   \<and> 1 < length (orifice_areas example_pipe_damage)
   \<and> fst ` set (num_damages example_pipe_damage) = fst ` set example_RR
   \<and> map fst (orifice_areas example_pipe_damage) = map fst (num_damages example_pipe_damage)
   \<and> poisson_draws (generator example_pipe_damage)
       = sdrop (length example_RR) (poisson_draws example_np_random)
   \<and> (\<exists>rate len. series_getitem example_RR (fst (orifice_areas example_pipe_damage ! 1)) = Inr rate
         \<and> iloc (link_length example_network) (fst (orifice_areas example_pipe_damage ! 1)) = Inr len
         \<and> ((fst (orifice_areas example_pipe_damage ! 1)
               \<in> fst ` set (leaks (damaged_network example_pipe_damage)))
              = (uniform_draws example_np_random !! 1 < failure_probability rate len)))"
proof -
  have h2: "leaks example_network = []"
    by (simp add: example_network_def)
  have h3: "1 < length (orifice_areas example_pipe_damage)"
    by (simp add: example_pipe_damage_def)
  from failure_draw_gates_leak [OF example_pipe_cell h2 h3]
  show ?thesis using example_pipe_cell h2 h3 by blast
qed

text \<open>
  C2. The claim: the Poisson count of a pipe is drawn only if its failure draw marked it
  failed. In the run below the failure draw of pipe 1 (0.9) is not below its failure
  probability and the pipe gets no leak; its count, 2, was drawn and stored all the same,
  and the generator has made two Poisson draws for two pipes.
\<close>

theorem count_drawn_for_unfailed_pipe:
  "pipe_cell example_RR example_network example_np_random = Inr example_pipe_damage
   \<and> num_damages example_pipe_damage = [(0, 3), (1, 2)]
   \<and> poisson_draws (generator example_pipe_damage) = stl (stl (poisson_draws example_np_random))
   \<and> series_getitem example_RR 1 = Inr 0.001
   \<and> iloc (link_length example_network) 1 = Inr 152.4
   \<and> uniform_draws example_np_random !! 1 = 0.9
   \<and> \<not> 0.9 < failure_probability 0.001 152.4
   \<and> map fst (leaks (damaged_network example_pipe_damage)) = [0]"
proof -
  have "\<not> 9 / 10 < failure_probability (1 / 1000) (762 / 5)"
    by (rule not_failed) simp
  then show ?thesis
    using example_pipe_cell
    by (simp add: example_pipe_damage_def example_np_random_def example_RR_def
        series_getitem_def iloc_def link_length_def example_network_def)
qed

end
